theory Spec2Isabelle
  imports Complex_Main "HOL-Library.Sublist" "HOL-Library.AList"
begin

section \<open>Python values and exceptions\<close>

text \<open>
  The values an inlist entry can take. A Python \<open>float\<close> is represented by the exact
  decimal value of the literal it was read from (Python rounds that value to the nearest
  binary64 number, so equal decimal values give equal floats). Characters are bytes: the
  model covers ASCII text.
\<close>

datatype pyval =
    PStr string
  | PBool bool
  | PNone
  | PInt int
  | PFloat rat
  | PList "pyval list"
  | PTuple "pyval list"

text \<open>
  The exceptions the handlers of the source distinguish, and the ones its callees raise.
  \<open>LiteralError\<close> stands for the \<open>SyntaxError\<close> or \<open>ValueError\<close> that
  \<open>ast.literal_eval\<close> raises on a text it does not accept.
\<close>

datatype exn =
    NameError
  | TypeError
  | ValueError
  | LiteralError
  | OSError
  | SystemExit

definition exn_bind :: "exn + 'a \<Rightarrow> ('a \<Rightarrow> exn + 'b) \<Rightarrow> exn + 'b" where
  "exn_bind r f = (case r of Inl e \<Rightarrow> Inl e | Inr v \<Rightarrow> f v)"

section \<open>The checks of the type inferencer\<close>

text \<open>
  \<open>_multi_check_method\<close>: Python's \<open>c in value_string\<close> on strings is substring
  containment, \<^const>\<open>sublist\<close>. With neither flag set the source logs and calls
  \<open>sys.exit()\<close>.
\<close>

definition multi_check_method :: "string \<Rightarrow> string list \<Rightarrow> bool \<Rightarrow> bool \<Rightarrow> exn + bool" where
  "multi_check_method value_string check_values any_check all_check =
     (if any_check then Inr (list_ex (\<lambda>check_value. sublist check_value value_string) check_values)
      else if all_check then Inr (list_all (\<lambda>check_value. sublist check_value value_string) check_values)
      else Inl SystemExit)"

text \<open>The single quote is \<open>CHR 0x27\<close>, the double quote \<open>CHR 0x22\<close>.\<close>

definition string_check :: "string \<Rightarrow> exn + bool" where
  "string_check value_string = multi_check_method value_string [[CHR 0x27], [CHR 0x22]] True False"

definition bool_check :: "string \<Rightarrow> exn + bool" where
  "bool_check value_string =
     multi_check_method value_string [''False'', ''FALSE'', ''True'', ''TRUE''] True False"

definition bool_false_check :: "string \<Rightarrow> exn + bool" where
  "bool_false_check value_string = multi_check_method value_string [''False'', ''FALSE''] True False"

definition list_check :: "string \<Rightarrow> exn + bool" where
  "list_check value_string = multi_check_method value_string [''['', '']''] False True"

definition tuple_check :: "string \<Rightarrow> exn + bool" where
  "tuple_check value_string = multi_check_method value_string [''('', '')''] False True"

definition none_check :: "string \<Rightarrow> exn + bool" where
  "none_check value_string = multi_check_method value_string [''None''] False True"

definition float_check :: "string \<Rightarrow> exn + bool" where
  "float_check value_string = multi_check_method value_string [''.''] False True"

section \<open>Regular expressions\<close>

text \<open>
  The two patterns of the source use character classes, greedy \<open>*\<close> and \<open>+\<close> on a
  class, and capture groups. \<open>re_match\<close> is the backtracking matcher of \<open>re.match\<close>
  for such patterns: anchored at the start, each quantifier first takes as many characters
  as it can and gives them back one by one. It returns the positions of the group
  brackets in the order they were passed. \<open>.\<close> is any character but the line break, and
  \<open>\d\<close> is a decimal digit, on ASCII text \<open>0\<close> to \<open>9\<close>.
\<close>

datatype char_class = Lit char | AnyChar | Digit | OneOf string

fun class_match :: "char_class \<Rightarrow> char \<Rightarrow> bool" where
  "class_match (Lit c) x = (x = c)"
| "class_match AnyChar x = (x \<noteq> CHR 0x0A)"
| "class_match Digit x = (x \<in> set ''0123456789'')"
| "class_match (OneOf cs) x = (x \<in> set cs)"

datatype rx_item = One char_class | Star char_class | Plus char_class | Mark

fun re_match :: "rx_item list \<Rightarrow> string \<Rightarrow> nat \<Rightarrow> nat list \<Rightarrow> nat list option" where
  "re_match [] s pos marks = Some (rev marks)"
| "re_match (Mark # r) s pos marks = re_match r s pos (pos # marks)"
| "re_match (One c # r) [] pos marks = None"
| "re_match (One c # r) (x # xs) pos marks =
     (if class_match c x then re_match r xs (Suc pos) marks else None)"
| "re_match (Plus c # r) [] pos marks = None"
| "re_match (Plus c # r) (x # xs) pos marks =
     (if class_match c x then re_match (Star c # r) xs (Suc pos) marks else None)"
| "re_match (Star c # r) [] pos marks = re_match r [] pos marks"
| "re_match (Star c # r) (x # xs) pos marks =
     (if class_match c x
      then (case re_match (Star c # r) xs (Suc pos) marks of
              Some m \<Rightarrow> Some m
            | None \<Rightarrow> re_match r (x # xs) pos marks)
      else re_match r (x # xs) pos marks)"

text \<open>\<open>compiled_float_regex = re.compile(r'\d+[eE]-*\d+')\<close>\<close>

definition compiled_float_regex :: "rx_item list" where
  "compiled_float_regex = [Plus Digit, One (OneOf ''eE''), Star (Lit CHR ''-''), Plus Digit]"

text \<open>\<open>compiled_regex_defaults = re.compile(r'(.*)\/.*\/(.*)\..*')\<close>\<close>

definition compiled_regex_defaults :: "rx_item list" where
  "compiled_regex_defaults =
     [Mark, Star AnyChar, Mark, One (Lit CHR ''/''), Star AnyChar, One (Lit CHR ''/''),
      Mark, Star AnyChar, Mark, One (Lit CHR ''.''), Star AnyChar]"

subsection \<open>Properties of the matcher\<close>

text \<open>
  A pattern fails on a text exactly when every way of splitting the text among its items
  fails; a greedy \<open>*\<close> that is followed by a match, and by no match further right, stops
  where that match starts.
\<close>

lemma re_match_last_star: "re_match [Star c] s pos marks = Some (rev marks)"
  by (induction s arbitrary: pos) auto

lemma one_none:
  "re_match (One c # r) s pos marks = None \<longleftrightarrow>
     (\<forall>x xs. s = x # xs \<longrightarrow> class_match c x \<longrightarrow> re_match r xs (Suc pos) marks = None)"
  by (cases s) auto

lemma plus_none:
  "re_match (Plus c # r) s pos marks = None \<longleftrightarrow>
     (\<forall>x xs. s = x # xs \<longrightarrow> class_match c x \<longrightarrow> re_match (Star c # r) xs (Suc pos) marks = None)"
  by (cases s) auto

lemma star_none:
  "re_match (Star c # r) s pos marks = None \<longleftrightarrow>
     (\<forall>u v. s = u @ v \<longrightarrow> list_all (class_match c) u \<longrightarrow> re_match r v (pos + length u) marks = None)"
proof (induction s arbitrary: pos)
  case Nil
  then show ?case by simp
next
  case (Cons x xs)
  show ?case
  proof (cases "class_match c x")
    case False
    have "(\<forall>u v. x # xs = u @ v \<longrightarrow> list_all (class_match c) u \<longrightarrow> re_match r v (pos + length u) marks = None)
          \<longleftrightarrow> re_match r (x # xs) pos marks = None"
    proof
      assume "\<forall>u v. x # xs = u @ v \<longrightarrow> list_all (class_match c) u \<longrightarrow> re_match r v (pos + length u) marks = None"
      from this[rule_format, of "[]" "x # xs"] show "re_match r (x # xs) pos marks = None" by simp
    next
      assume n: "re_match r (x # xs) pos marks = None"
      show "\<forall>u v. x # xs = u @ v \<longrightarrow> list_all (class_match c) u \<longrightarrow> re_match r v (pos + length u) marks = None"
      proof (intro allI impI)
        fix u v assume "x # xs = u @ v" "list_all (class_match c) u"
        with False have "u = []" by (cases u) auto
        with \<open>x # xs = u @ v\<close> n show "re_match r v (pos + length u) marks = None" by simp
      qed
    qed
    with False show ?thesis by simp
  next
    case True
    have "(\<forall>u v. x # xs = u @ v \<longrightarrow> list_all (class_match c) u \<longrightarrow> re_match r v (pos + length u) marks = None)
          \<longleftrightarrow> (re_match r (x # xs) pos marks = None \<and>
               (\<forall>u v. xs = u @ v \<longrightarrow> list_all (class_match c) u \<longrightarrow> re_match r v (Suc pos + length u) marks = None))"
      (is "?L \<longleftrightarrow> ?A \<and> ?B")
    proof
      assume l: ?L
      from l[rule_format, of "[]" "x # xs"] have a: ?A by simp
      have ?B
      proof (intro allI impI)
        fix u v assume "xs = u @ v" "list_all (class_match c) u"
        with l[rule_format, of "x # u" v] True show "re_match r v (Suc pos + length u) marks = None"
          by simp
      qed
      with a show "?A \<and> ?B" ..
    next
      assume ab: "?A \<and> ?B"
      show ?L
      proof (intro allI impI)
        fix u v assume uv: "x # xs = u @ v" "list_all (class_match c) u"
        show "re_match r v (pos + length u) marks = None"
        proof (cases u)
          case Nil
          with uv ab show ?thesis by simp
        next
          case (Cons y u')
          with uv have "xs = u' @ v" "list_all (class_match c) u'" by auto
          with ab Cons show ?thesis by simp
        qed
      qed
    qed
    with True Cons.IH[of "Suc pos"] show ?thesis
      by (auto split: option.splits)
  qed
qed

lemma star_none_split:
  "re_match (Star c # r) (u @ v) pos marks = None \<Longrightarrow> list_all (class_match c) u \<Longrightarrow>
   re_match r v (pos + length u) marks = None"
  by (simp add: star_none)

lemma star_skip:
  assumes "\<forall>u v. s = u @ v \<longrightarrow> u \<noteq> [] \<longrightarrow> list_all (class_match c) u \<longrightarrow> re_match r v (pos + length u) marks = None"
  shows "re_match (Star c # r) s pos marks = re_match r s pos marks"
proof (cases s)
  case Nil
  then show ?thesis by simp
next
  case (Cons x xs)
  show ?thesis
  proof (cases "class_match c x")
    case False
    with Cons show ?thesis by simp
  next
    case True
    have "re_match (Star c # r) xs (Suc pos) marks = None"
      unfolding star_none
    proof (intro allI impI)
      fix u v assume "xs = u @ v" "list_all (class_match c) u"
      with assms[rule_format, of "x # u" v] Cons True
      show "re_match r v (Suc pos + length u) marks = None" by simp
    qed
    with Cons True show ?thesis by simp
  qed
qed

lemma star_greedy:
  assumes "list_all (class_match c) u"
    and "\<forall>u1 u2. v = u1 @ u2 \<longrightarrow> u1 \<noteq> [] \<longrightarrow> list_all (class_match c) u1 \<longrightarrow>
           re_match r u2 (pos + length u + length u1) marks = None"
    and "re_match r v (pos + length u) marks = Some m"
  shows "re_match (Star c # r) (u @ v) pos marks = Some m"
  using assms
proof (induction u arbitrary: pos)
  case Nil
  then show ?case
    using star_skip[of v c r pos marks] by simp
next
  case (Cons x u)
  have "re_match (Star c # r) (u @ v) (Suc pos) marks = Some m"
    using Cons.prems by (intro Cons.IH) auto
  with Cons.prems(1) show ?case by simp
qed


lemma anychar_all: "list_all (class_match AnyChar) u \<longleftrightarrow> CHR 0x0A \<notin> set u"
  by (induction u) auto

lemma re_match_marks_length:
  "re_match r s pos marks = Some m \<Longrightarrow> length m = length marks + length (filter (\<lambda>i. i = Mark) r)"
  by (induction r s pos marks rule: re_match.induct) (auto split: if_splits option.splits)

lemma one_lit_fail: "c \<notin> set s \<Longrightarrow> re_match (One (Lit c) # r) s pos marks = None"
  by (cases s) auto

text \<open>
  The defaults pattern fails exactly on the paths that are not of the shape
  \<open>dir/sub/name.ext\<close> with no line break before the last dot used.
\<close>

lemma defaults_regex_none:
  "re_match compiled_regex_defaults p 0 [] = None \<longleftrightarrow>
     \<not> (\<exists>dir sub name ext. p = dir @ ''/'' @ sub @ ''/'' @ name @ ''.'' @ ext
           \<and> CHR 0x0A \<notin> set (dir @ sub @ name))"
proof
  assume n: "re_match compiled_regex_defaults p 0 [] = None"
  show "\<not> (\<exists>dir sub name ext. p = dir @ ''/'' @ sub @ ''/'' @ name @ ''.'' @ ext
           \<and> CHR 0x0A \<notin> set (dir @ sub @ name))"
  proof
    assume "\<exists>dir sub name ext. p = dir @ ''/'' @ sub @ ''/'' @ name @ ''.'' @ ext
           \<and> CHR 0x0A \<notin> set (dir @ sub @ name)"
    then obtain dir sub name ext where p: "p = dir @ ''/'' @ sub @ ''/'' @ name @ ''.'' @ ext"
      and nl: "CHR 0x0A \<notin> set dir" "CHR 0x0A \<notin> set sub" "CHR 0x0A \<notin> set name"
      by auto
    from n p have a: "re_match [Star AnyChar, Mark, One (Lit CHR ''/''), Star AnyChar, One (Lit CHR ''/''),
        Mark, Star AnyChar, Mark, One (Lit CHR ''.''), Star AnyChar]
        (dir @ CHR ''/'' # sub @ CHR ''/'' # name @ CHR ''.'' # ext) 0 [0] = None"
      by (simp add: compiled_regex_defaults_def)
    from star_none_split[OF a] nl(1)
    have b: "re_match [Star AnyChar, One (Lit CHR ''/''), Mark, Star AnyChar, Mark, One (Lit CHR ''.''), Star AnyChar]
        (sub @ CHR ''/'' # name @ CHR ''.'' # ext) (Suc (length dir)) [length dir, 0] = None"
      by (simp add: anychar_all)
    from star_none_split[OF b] nl(2)
    have c: "re_match [Star AnyChar, Mark, One (Lit CHR ''.''), Star AnyChar]
        (name @ CHR ''.'' # ext) (Suc (Suc (length dir + length sub)))
        [Suc (Suc (length dir + length sub)), length dir, 0] = None"
      by (simp add: anychar_all)
    from star_none_split[OF c] nl(3) show False
      by (simp add: anychar_all re_match_last_star)
  qed
next
  assume ns: "\<not> (\<exists>dir sub name ext. p = dir @ ''/'' @ sub @ ''/'' @ name @ ''.'' @ ext
           \<and> CHR 0x0A \<notin> set (dir @ sub @ name))"
  show "re_match compiled_regex_defaults p 0 [] = None"
  proof (rule ccontr)
    assume "re_match compiled_regex_defaults p 0 [] \<noteq> None"
    then obtain dir r1 where d: "p = dir @ r1" "CHR 0x0A \<notin> set dir"
      and 1: "re_match [One (Lit CHR ''/''), Star AnyChar, One (Lit CHR ''/''),
        Mark, Star AnyChar, Mark, One (Lit CHR ''.''), Star AnyChar] r1 (length dir) [length dir, 0] \<noteq> None"
      unfolding compiled_regex_defaults_def
      by (auto simp: star_none anychar_all)
    from 1 obtain r2 where r1: "r1 = CHR ''/'' # r2"
      and 2: "re_match [Star AnyChar, One (Lit CHR ''/''),
        Mark, Star AnyChar, Mark, One (Lit CHR ''.''), Star AnyChar] r2 (Suc (length dir)) [length dir, 0] \<noteq> None"
      by (cases r1) (auto split: if_splits)
    from 2 obtain sub r3 where s: "r2 = sub @ r3" "CHR 0x0A \<notin> set sub"
      and 3: "re_match [One (Lit CHR ''/''), Mark, Star AnyChar, Mark, One (Lit CHR ''.''), Star AnyChar]
         r3 (Suc (length dir) + length sub) [length dir, 0] \<noteq> None"
      by (auto simp: star_none anychar_all)
    from 3 obtain r4 where r3: "r3 = CHR ''/'' # r4"
      and 4: "re_match [Star AnyChar, Mark, One (Lit CHR ''.''), Star AnyChar]
         r4 (Suc (Suc (length dir) + length sub))
         [Suc (Suc (length dir) + length sub), length dir, 0] \<noteq> None"
      by (cases r3) (auto split: if_splits)
    from 4 obtain name r5 where nm: "r4 = name @ r5" "CHR 0x0A \<notin> set name"
      and 5: "re_match [One (Lit CHR ''.''), Star AnyChar]
         r5 (Suc (Suc (length dir) + length sub) + length name)
         [Suc (Suc (length dir) + length sub) + length name, Suc (Suc (length dir) + length sub), length dir, 0] \<noteq> None"
      by (auto simp: star_none anychar_all)
    from 5 obtain ext where r5: "r5 = CHR ''.'' # ext"
      by (cases r5) (auto split: if_splits)
    from d r1 s r3 nm r5 have "p = dir @ ''/'' @ sub @ ''/'' @ name @ ''.'' @ ext"
      by simp
    with d(2) s(2) nm(2) ns show False by auto
  qed
qed


text \<open>
  On a path whose last two segments are \<open>sub\<close> and \<open>name.ext\<close>, where \<open>ext\<close> has no
  dot, the groups are the text before \<open>/sub\<close> and the text \<open>name\<close>.
\<close>

lemma suffix_no_char:
  assumes "x # w = u1 @ u2" "u1 \<noteq> []" "c \<notin> set w"
  shows "c \<notin> set u2"
proof -
  from assms(1,2) obtain u1' where "w = u1' @ u2"
    by (cases u1) auto
  with assms(3) show ?thesis by auto
qed

lemma one_slash_fail:
  assumes "length (filter (\<lambda>x. x = CHR ''/'') s) \<le> 1"
  shows "re_match (Mark # One (Lit CHR ''/'') # Star AnyChar # One (Lit CHR ''/'') # r) s pos marks = None"
proof (cases s)
  case Nil
  then show ?thesis by simp
next
  case (Cons x xs)
  show ?thesis
  proof (cases "x = CHR ''/''")
    case False
    with Cons show ?thesis by simp
  next
    case True
    with Cons assms have "CHR ''/'' \<notin> set xs"
      by (auto simp: filter_empty_conv)
    then have "re_match (Star AnyChar # One (Lit CHR ''/'') # r) xs (Suc pos) (pos # marks) = None"
      unfolding star_none by (auto intro!: one_lit_fail)
    with Cons True show ?thesis by simp
  qed
qed

lemma defaults_regex_groups:
  assumes sl: "CHR ''/'' \<notin> set sub" "CHR ''/'' \<notin> set name" "CHR ''/'' \<notin> set ext"
    and dot: "CHR ''.'' \<notin> set ext"
    and nl: "CHR 0x0A \<notin> set dir" "CHR 0x0A \<notin> set sub" "CHR 0x0A \<notin> set name"
  shows "re_match compiled_regex_defaults (dir @ ''/'' @ sub @ ''/'' @ name @ ''.'' @ ext) 0 []
         = Some [0, length dir, Suc (length dir) + length sub + 1,
                 Suc (length dir) + length sub + 1 + length name]"
proof -
  let ?p2 = "Suc (length dir) + length sub + 1"
  let ?m2 = "[?p2, length dir, 0]"
  have e3: "re_match [Star AnyChar, Mark, One (Lit CHR ''.''), Star AnyChar]
              (name @ CHR ''.'' # ext) ?p2 ?m2 = Some (rev ((?p2 + length name) # ?m2))"
  proof (rule star_greedy)
    show "list_all (class_match AnyChar) name"
      using nl(3) by (simp add: anychar_all)
    show "\<forall>u1 u2. CHR ''.'' # ext = u1 @ u2 \<longrightarrow> u1 \<noteq> [] \<longrightarrow> list_all (class_match AnyChar) u1 \<longrightarrow>
            re_match [Mark, One (Lit CHR ''.''), Star AnyChar] u2 (?p2 + length name + length u1) ?m2 = None"
    proof (intro allI impI)
      fix u1 u2 assume "CHR ''.'' # ext = u1 @ u2" "u1 \<noteq> []"
      from suffix_no_char[OF this dot] show
        "re_match [Mark, One (Lit CHR ''.''), Star AnyChar] u2 (?p2 + length name + length u1) ?m2 = None"
        by (simp add: one_lit_fail)
    qed
    show "re_match [Mark, One (Lit CHR ''.''), Star AnyChar] (CHR ''.'' # ext) (?p2 + length name) ?m2
            = Some (rev ((?p2 + length name) # ?m2))"
      by (simp add: re_match_last_star)
  qed
  let ?m1 = "[length dir, 0]"
  have e2: "re_match [Star AnyChar, One (Lit CHR ''/''), Mark, Star AnyChar, Mark, One (Lit CHR ''.''), Star AnyChar]
              (sub @ CHR ''/'' # name @ CHR ''.'' # ext) (Suc (length dir)) ?m1
            = Some (rev ((?p2 + length name) # ?m2))"
  proof (rule star_greedy)
    show "list_all (class_match AnyChar) sub"
      using nl(2) by (simp add: anychar_all)
    show "\<forall>u1 u2. CHR ''/'' # name @ CHR ''.'' # ext = u1 @ u2 \<longrightarrow> u1 \<noteq> [] \<longrightarrow>
            list_all (class_match AnyChar) u1 \<longrightarrow>
            re_match [One (Lit CHR ''/''), Mark, Star AnyChar, Mark, One (Lit CHR ''.''), Star AnyChar]
              u2 (Suc (length dir) + length sub + length u1) ?m1 = None"
    proof (intro allI impI)
      fix u1 u2 assume "CHR ''/'' # name @ CHR ''.'' # ext = u1 @ u2" "u1 \<noteq> []"
      moreover have "CHR ''/'' \<notin> set (name @ CHR ''.'' # ext)"
        using sl by simp
      ultimately have "CHR ''/'' \<notin> set u2"
        by (rule suffix_no_char)
      then show "re_match [One (Lit CHR ''/''), Mark, Star AnyChar, Mark, One (Lit CHR ''.''), Star AnyChar]
              u2 (Suc (length dir) + length sub + length u1) ?m1 = None"
        by (rule one_lit_fail)
    qed
    show "re_match [One (Lit CHR ''/''), Mark, Star AnyChar, Mark, One (Lit CHR ''.''), Star AnyChar]
            (CHR ''/'' # name @ CHR ''.'' # ext) (Suc (length dir) + length sub) ?m1
          = Some (rev ((?p2 + length name) # ?m2))"
      using e3 by simp
  qed
  have e1: "re_match [Star AnyChar, Mark, One (Lit CHR ''/''), Star AnyChar, One (Lit CHR ''/''),
              Mark, Star AnyChar, Mark, One (Lit CHR ''.''), Star AnyChar]
              (dir @ CHR ''/'' # sub @ CHR ''/'' # name @ CHR ''.'' # ext) 0 [0]
            = Some (rev ((?p2 + length name) # ?m2))"
  proof (rule star_greedy)
    show "list_all (class_match AnyChar) dir"
      using nl(1) by (simp add: anychar_all)
    show "\<forall>u1 u2. CHR ''/'' # sub @ CHR ''/'' # name @ CHR ''.'' # ext = u1 @ u2 \<longrightarrow> u1 \<noteq> [] \<longrightarrow>
            list_all (class_match AnyChar) u1 \<longrightarrow>
            re_match [Mark, One (Lit CHR ''/''), Star AnyChar, One (Lit CHR ''/''),
              Mark, Star AnyChar, Mark, One (Lit CHR ''.''), Star AnyChar]
              u2 (0 + length dir + length u1) [0] = None"
    proof (intro allI impI)
      fix u1 u2 assume a: "CHR ''/'' # sub @ CHR ''/'' # name @ CHR ''.'' # ext = u1 @ u2" "u1 \<noteq> []"
      then obtain u1' where "sub @ CHR ''/'' # name @ CHR ''.'' # ext = u1' @ u2"
        by (cases u1) auto
      then have "length (filter (\<lambda>x. x = CHR ''/'') (u1' @ u2))
                 = length (filter (\<lambda>x. x = CHR ''/'') (sub @ CHR ''/'' # name @ CHR ''.'' # ext))"
        by simp
      also have "\<dots> = 1"
        using sl by (auto simp: filter_empty_conv)
      finally have "length (filter (\<lambda>x. x = CHR ''/'') u2) \<le> 1"
        by simp
      then show "re_match [Mark, One (Lit CHR ''/''), Star AnyChar, One (Lit CHR ''/''),
              Mark, Star AnyChar, Mark, One (Lit CHR ''.''), Star AnyChar]
              u2 (0 + length dir + length u1) [0] = None"
        by (rule one_slash_fail)
    qed
    show "re_match [Mark, One (Lit CHR ''/''), Star AnyChar, One (Lit CHR ''/''),
              Mark, Star AnyChar, Mark, One (Lit CHR ''.''), Star AnyChar]
            (CHR ''/'' # sub @ CHR ''/'' # name @ CHR ''.'' # ext) (0 + length dir) [0]
          = Some (rev ((?p2 + length name) # ?m2))"
      using e2 by simp
  qed
  then show ?thesis
    by (simp add: compiled_regex_defaults_def)
qed

section \<open>The callees \<open>int\<close> and \<open>ast.literal_eval\<close>\<close>

definition is_digit :: "char \<Rightarrow> bool" where
  "is_digit c = (c \<in> set ''0123456789'')"

definition digits_val :: "string \<Rightarrow> int" where
  "digits_val ds = foldl (\<lambda>a c. 10 * a + (of_char c - 48)) 0 ds"

text \<open>
  \<open>int(value_string)\<close> in base 10: surrounding whitespace is dropped, one sign is
  allowed, and the rest is decimal digits, where single underscores may stand between
  two digits. Anything else raises \<open>ValueError\<close>.
\<close>

definition is_py_space :: "char \<Rightarrow> bool" where
  "is_py_space c =
     (c \<in> set [CHR 0x09, CHR 0x0A, CHR 0x0B, CHR 0x0C, CHR 0x0D,
                CHR 0x1C, CHR 0x1D, CHR 0x1E, CHR 0x1F, CHR 0x20])"

fun int_body_ok :: "string \<Rightarrow> bool" where
  "int_body_ok [] = False"
| "int_body_ok [c] = is_digit c"
| "int_body_ok (c # u # cs) =
     (is_digit c \<and> (if u = CHR ''_'' then int_body_ok cs else int_body_ok (u # cs)))"

definition py_int :: "string \<Rightarrow> exn + pyval" where
  "py_int value_string =
     (let t = rev (dropWhile is_py_space (rev (dropWhile is_py_space value_string)));
          negative = (case t of [] \<Rightarrow> False | c # _ \<Rightarrow> c = CHR ''-'');
          body = (case t of [] \<Rightarrow> [] | c # r \<Rightarrow> if c = CHR ''-'' \<or> c = CHR ''+'' then r else t);
          n = digits_val (filter (\<lambda>c. c \<noteq> CHR ''_'') body)
      in if int_body_ok body then Inr (PInt (if negative then - n else n))
         else Inl ValueError)"

text \<open>
  \<open>ast.literal_eval\<close> belongs to the standard library. It is modelled on the literal
  grammar of the inlist format, written without interior whitespace:
  decimal integers, decimal floats with optional exponent, a sign in front of a number,
  \<open>True\<close>, \<open>False\<close>, \<open>None\<close>, quoted strings without backslash or line break,
  lists \<open>[...]\<close>, tuples \<open>(...)\<close> and a bare top-level tuple \<open>a,b\<close>, nested at will.
  On this grammar the model gives the library's value. On any other text the model
  answers \<open>LiteralError\<close>; the library accepts a few further literals (complex numbers,
  bytes, escapes and prefixes in strings, adjacent strings, sets, dictionaries, \<open>...\<close>,
  underscores in numbers, other integer bases, interior whitespace).
\<close>

datatype bracket = Top | Square | Round

datatype lit_token = TOpen bracket | TClose bracket | TComma | TAtom pyval

definition pow10 :: "int \<Rightarrow> rat" where
  "pow10 k = (if 0 \<le> k then 10 ^ nat k else 1 / 10 ^ nat (- k))"

text \<open>An unsigned number that fills the whole text \<open>w\<close>.\<close>

definition number_of_text :: "string \<Rightarrow> pyval option" where
  "number_of_text w =
     (let ip = takeWhile is_digit w;
          r1 = dropWhile is_digit w;
          has_dot = (case r1 of [] \<Rightarrow> False | c # _ \<Rightarrow> c = CHR ''.'');
          fp = (if has_dot then takeWhile is_digit (tl r1) else []);
          r2 = (if has_dot then dropWhile is_digit (tl r1) else r1);
          has_exp = (case r2 of [] \<Rightarrow> False | c # _ \<Rightarrow> c = CHR ''e'' \<or> c = CHR ''E'');
          r3 = (if has_exp then tl r2 else r2);
          exp_neg = (case r3 of [] \<Rightarrow> False | c # _ \<Rightarrow> has_exp \<and> c = CHR ''-'');
          exp_signed = (case r3 of [] \<Rightarrow> False | c # _ \<Rightarrow> has_exp \<and> (c = CHR ''-'' \<or> c = CHR ''+''));
          ed = (if exp_signed then tl r3 else r3);
          e = (if exp_neg then - digits_val ed else digits_val ed)
      in if ip = [] \<and> fp = [] then None
         else if has_exp then
           (if ed \<noteq> [] \<and> list_all is_digit ed
            then Some (PFloat (of_int (digits_val (ip @ fp)) * pow10 (e - int (length fp))))
            else None)
         else if r2 \<noteq> [] then None
         else if has_dot then Some (PFloat (of_int (digits_val (ip @ fp)) * pow10 (- int (length fp))))
         else if list_all (\<lambda>c. c = CHR ''0'') ip \<or> hd ip \<noteq> CHR ''0'' then Some (PInt (digits_val ip))
         else None)"

definition negate :: "pyval \<Rightarrow> pyval" where
  "negate v = (case v of PInt n \<Rightarrow> PInt (- n) | PFloat x \<Rightarrow> PFloat (- x) | _ \<Rightarrow> v)"

text \<open>The value of a maximal run \<open>w\<close> of characters between brackets, commas and quotes.\<close>

definition atom_of_text :: "string \<Rightarrow> pyval option" where
  "atom_of_text w =
     (if w = ''True'' then Some (PBool True)
      else if w = ''False'' then Some (PBool False)
      else if w = ''None'' then Some PNone
      else (case w of
              [] \<Rightarrow> None
            | c # r \<Rightarrow>
                if c = CHR ''-'' then map_option negate (number_of_text r)
                else if c = CHR ''+'' then number_of_text r
                else number_of_text w))"

text \<open>
  The scanner. \<open>quote\<close> is the open quote, if any; \<open>acc\<close> is the text read since the
  last bracket, comma or quote.
\<close>

definition flush :: "string \<Rightarrow> lit_token list option \<Rightarrow> lit_token list option" where
  "flush acc rest =
     (if acc = [] then rest
      else (case atom_of_text acc of
              None \<Rightarrow> None
            | Some v \<Rightarrow> map_option (Cons (TAtom v)) rest))"

fun lit_scan :: "char option \<Rightarrow> string \<Rightarrow> string \<Rightarrow> lit_token list option" where
  "lit_scan None acc [] = flush acc (Some [])"
| "lit_scan (Some q) acc [] = None"
| "lit_scan None acc (c # cs) =
     (if c = CHR ''['' then flush acc (map_option (Cons (TOpen Square)) (lit_scan None [] cs))
      else if c = CHR '']'' then flush acc (map_option (Cons (TClose Square)) (lit_scan None [] cs))
      else if c = CHR ''('' then flush acc (map_option (Cons (TOpen Round)) (lit_scan None [] cs))
      else if c = CHR '')'' then flush acc (map_option (Cons (TClose Round)) (lit_scan None [] cs))
      else if c = CHR '','' then flush acc (map_option (Cons TComma) (lit_scan None [] cs))
      else if c = CHR 0x27 \<or> c = CHR 0x22 then flush acc (lit_scan (Some c) [] cs)
      else if c = CHR 0x20 \<or> c = CHR 0x09 \<or> c = CHR 0x0A \<or> c = CHR 0x0D then None
      else lit_scan None (acc @ [c]) cs)"
| "lit_scan (Some q) acc (c # cs) =
     (if c = q then map_option (Cons (TAtom (PStr acc))) (lit_scan None [] cs)
      else if c = CHR 0x5C \<or> c = CHR 0x0A \<or> c = CHR 0x0D then None
      else lit_scan (Some q) (acc @ [c]) cs)"

text \<open>
  The parser: a stack of open brackets, each with the items read so far (latest first)
  and whether a comma was seen, and the value read since the last comma, if any.
\<close>

type_synonym frame = "bracket \<times> pyval list \<times> bool"

definition close_frame :: "bracket \<Rightarrow> pyval list \<Rightarrow> bool \<Rightarrow> pyval" where
  "close_frame k items had_comma =
     (case k of
        Square \<Rightarrow> PList (rev items)
      | _ \<Rightarrow> (case items of
                 [v] \<Rightarrow> if had_comma then PTuple [v] else v
               | _ \<Rightarrow> PTuple (rev items)))"

fun lit_step :: "lit_token \<Rightarrow> frame list \<times> pyval option \<Rightarrow> (frame list \<times> pyval option) option" where
  "lit_step (TAtom v) (st, None) = Some (st, Some v)"
| "lit_step (TAtom v) (st, Some u) = None"
| "lit_step (TOpen b) (st, None) = Some ((b, [], False) # st, None)"
| "lit_step (TOpen b) (st, Some u) = None"
| "lit_step TComma ((k, items, had_comma) # st, Some v) = Some ((k, v # items, True) # st, None)"
| "lit_step TComma (st, cur) = None"
| "lit_step (TClose b) ((k, items, had_comma) # st, cur) =
     (if k = b \<and> b \<noteq> Top
      then Some (st, Some (close_frame k (case cur of None \<Rightarrow> items | Some v \<Rightarrow> v # items) had_comma))
      else None)"
| "lit_step (TClose b) ([], cur) = None"

fun lit_parse :: "lit_token list \<Rightarrow> frame list \<times> pyval option \<Rightarrow> pyval option" where
  "lit_parse [] ([(Top, items, had_comma)], Some v) =
     Some (if had_comma then PTuple (rev (v # items)) else v)"
| "lit_parse [] ([(Top, items, had_comma)], None) =
     (if had_comma then Some (PTuple (rev items)) else None)"
| "lit_parse [] other = None"
| "lit_parse (t # ts) state =
     (case lit_step t state of None \<Rightarrow> None | Some state' \<Rightarrow> lit_parse ts state')"

definition literal_eval :: "string \<Rightarrow> exn + pyval" where
  "literal_eval node_or_string =
     (case lit_scan None [] (dropWhile (\<lambda>c. c = CHR 0x20 \<or> c = CHR 0x09) node_or_string) of
        None \<Rightarrow> Inl LiteralError
      | Some toks \<Rightarrow>
          (case lit_parse toks ([(Top, [], False)], None) of
             None \<Rightarrow> Inl LiteralError
           | Some v \<Rightarrow> Inr v))"

section \<open>The type inferencer\<close>

text \<open>Python's \<open>s.strip(chars)\<close>.\<close>

definition strip :: "string \<Rightarrow> string \<Rightarrow> string" where
  "strip chars s =
     rev (dropWhile (\<lambda>c. c \<in> set chars) (rev (dropWhile (\<lambda>c. c \<in> set chars) s)))"

text \<open>\<open>re.match\<close> as a truth value.\<close>

definition re_matches :: "rx_item list \<Rightarrow> string \<Rightarrow> bool" where
  "re_matches rx s = (re_match rx s 0 [] \<noteq> None)"

text \<open>\<open>InlistHandler._typer\<close>, branch by branch.\<close>

definition typer :: "string \<Rightarrow> exn + pyval" where
  "typer value_string =
     exn_bind (string_check value_string) (\<lambda>is_string.
     if is_string then
       exn_bind (list_check value_string) (\<lambda>is_list.
       if is_list then literal_eval value_string
       else Inr (PStr (strip [CHR 0x27] (strip [CHR 0x22] value_string))))
     else
     exn_bind (bool_check value_string) (\<lambda>is_bool.
     if is_bool then
       exn_bind (bool_false_check value_string) (\<lambda>is_false.
       if is_false then Inr (PBool False) else Inr (PBool True))
     else
     exn_bind (none_check value_string) (\<lambda>is_none.
     if is_none then Inr PNone
     else
     exn_bind (list_check value_string) (\<lambda>is_list.
     if is_list then literal_eval value_string
     else
     exn_bind (tuple_check value_string) (\<lambda>is_tuple.
     if is_tuple then literal_eval value_string
     else
     exn_bind (float_check value_string) (\<lambda>has_point.
     if has_point \<or> re_matches compiled_float_regex value_string then literal_eval value_string
     else py_int value_string))))))"

subsection \<open>Properties of the type inferencer\<close>

lemma checks_simps:
  "string_check s = Inr (sublist [CHR 0x27] s \<or> sublist [CHR 0x22] s)"
  "bool_check s = Inr (sublist ''False'' s \<or> sublist ''FALSE'' s \<or> sublist ''True'' s \<or> sublist ''TRUE'' s)"
  "bool_false_check s = Inr (sublist ''False'' s \<or> sublist ''FALSE'' s)"
  "list_check s = Inr (sublist ''['' s \<and> sublist '']'' s)"
  "tuple_check s = Inr (sublist ''('' s \<and> sublist '')'' s)"
  "none_check s = Inr (sublist ''None'' s)"
  "float_check s = Inr (sublist ''.'' s)"
  by (simp_all add: string_check_def bool_check_def bool_false_check_def list_check_def
      tuple_check_def none_check_def float_check_def multi_check_method_def)

lemma sublist_single: "sublist [c] s \<longleftrightarrow> c \<in> set s"
  by (induction s) (auto simp: sublist_Cons_right)

lemma exn_bind_Inr [simp]: "exn_bind (Inr v) f = f v"
  by (simp add: exn_bind_def)

lemma strip_Cons_in: "q \<in> set cs \<Longrightarrow> strip cs (q # s) = strip cs s"
  by (simp add: strip_def)

lemma dropWhile_all: "\<forall>x\<in>set s. P x \<Longrightarrow> dropWhile P s = []"
  by simp

lemma strip_snoc_in:
  assumes "q \<in> set cs"
  shows "strip cs (s @ [q]) = strip cs s"
proof (cases "\<forall>x\<in>set s. x \<in> set cs")
  case True
  then have e: "dropWhile (\<lambda>c. c \<in> set cs) s = []"
    by simp
  from True assms show ?thesis
    by (simp add: strip_def dropWhile_append e)
next
  case False
  then have "dropWhile (\<lambda>c. c \<in> set cs) (s @ [q]) = dropWhile (\<lambda>c. c \<in> set cs) s @ [q]"
    by (auto simp: dropWhile_append)
  with assms show ?thesis by (simp add: strip_def)
qed

lemma strip_id:
  assumes "s = [] \<or> (hd s \<notin> set cs \<and> last s \<notin> set cs)"
  shows "strip cs s = s"
proof (cases "s = []")
  case True
  then show ?thesis by (simp add: strip_def)
next
  case False
  with assms have h: "hd s \<notin> set cs" and l: "last s \<notin> set cs" by auto
  from False h have a: "dropWhile (\<lambda>c. c \<in> set cs) s = s"
    by (cases s) auto
  from False l have "hd (rev s) \<notin> set cs" by (simp add: hd_rev)
  with False have "dropWhile (\<lambda>c. c \<in> set cs) (rev s) = rev s"
    by (cases "rev s") auto
  with a show ?thesis by (simp add: strip_def)
qed

text \<open>
  Claim C3, as amended. A token wrapped in matching quote characters that does not hold
  both \<open>[\<close> and \<open>]\<close> is inferred as a string: the token with every leading and trailing
  double quote removed and then every leading and trailing single quote removed
  (\<open>value_string.strip('"').strip("'")\<close>). When the text between the wrapping quotes
  neither begins nor ends with a quote character, that string is exactly this text.
\<close>

theorem typer_quoted:
  assumes q: "q = CHR 0x27 \<or> q = CHR 0x22"
    and nolist: "CHR ''['' \<notin> set inner \<or> CHR '']'' \<notin> set inner"
  shows "typer (q # inner @ [q]) = Inr (PStr (strip [CHR 0x27] (strip [CHR 0x22] (q # inner @ [q]))))
    \<and> (inner = [] \<or> (hd inner \<notin> {CHR 0x27, CHR 0x22} \<and> last inner \<notin> {CHR 0x27, CHR 0x22})
       \<longrightarrow> typer (q # inner @ [q]) = Inr (PStr inner))"
proof -
  let ?tok = "q # inner @ [q]"
  have sc: "string_check ?tok = Inr True"
    using q by (auto simp: checks_simps sublist_single)
  have lc: "list_check ?tok = Inr False"
    using q nolist by (auto simp: checks_simps sublist_single)
  have main: "typer ?tok = Inr (PStr (strip [CHR 0x27] (strip [CHR 0x22] ?tok)))"
    by (simp add: typer_def sc lc)
  have "strip [CHR 0x27] (strip [CHR 0x22] ?tok) = inner"
    if c: "inner = [] \<or> (hd inner \<notin> {CHR 0x27, CHR 0x22} \<and> last inner \<notin> {CHR 0x27, CHR 0x22})"
  proof -
    from c have i1: "strip [CHR 0x27] inner = inner" and i2: "strip [CHR 0x22] inner = inner"
      by (auto intro!: strip_id)
    from q show ?thesis
    proof
      assume "q = CHR 0x27"
      then have "strip [CHR 0x22] ?tok = ?tok"
        by (intro strip_id) simp
      moreover have "strip [CHR 0x27] (CHR 0x27 # inner @ [CHR 0x27]) = strip [CHR 0x27] inner"
        using strip_snoc_in[of "CHR 0x27" "[CHR 0x27]" "CHR 0x27 # inner"]
        by (simp add: strip_Cons_in)
      ultimately show ?thesis using \<open>q = CHR 0x27\<close> i1 by simp
    next
      assume "q = CHR 0x22"
      moreover have "strip [CHR 0x22] (CHR 0x22 # inner @ [CHR 0x22]) = strip [CHR 0x22] inner"
        using strip_snoc_in[of "CHR 0x22" "[CHR 0x22]" "CHR 0x22 # inner"]
        by (simp add: strip_Cons_in)
      ultimately show ?thesis using i1 i2 by simp
    qed
  qed
  with main show ?thesis by simp
qed

text \<open>The fixture's \<open>'this is a string'\<close>, and a double-quoted \<open>"it"\<close>.\<close>

theorem typer_quoted_witness:
  "typer (CHR 0x27 # ''this is a string'' @ [CHR 0x27]) = Inr (PStr ''this is a string'')
   \<and> typer (CHR 0x22 # ''it'' @ [CHR 0x22]) = Inr (PStr ''it'')"
  using typer_quoted[of "CHR 0x27" "''this is a string''"] typer_quoted[of "CHR 0x22" "''it''"]
  by (simp add: strip_def)

text \<open>
  Claim C3 as stated fails: the double-quoted token \<open>"'a'"\<close> has the inner text \<open>'a'\<close>,
  but both layers of quotes are stripped and the result is \<open>a\<close>.
\<close>

theorem typer_quoted_counterexample:
  "typer [CHR 0x22, CHR 0x27, CHR ''a'', CHR 0x27, CHR 0x22] = Inr (PStr ''a'')
   \<and> typer [CHR 0x22, CHR 0x27, CHR ''a'', CHR 0x27, CHR 0x22] \<noteq> Inr (PStr [CHR 0x27, CHR ''a'', CHR 0x27])"
  by (simp add: typer_def checks_simps sublist_Cons_right strip_def)

text \<open>
  Claim C4. A token without a quote character that holds one of \<open>False\<close>, \<open>FALSE\<close>,
  \<open>True\<close>, \<open>TRUE\<close> as a substring is inferred as a Boolean: \<open>False\<close> when it holds
  \<open>False\<close> or \<open>FALSE\<close> (also when it holds \<open>True\<close> elsewhere), \<open>True\<close> otherwise.
\<close>

theorem typer_boolean:
  assumes "CHR 0x27 \<notin> set s" "CHR 0x22 \<notin> set s"
    and "sublist ''False'' s \<or> sublist ''FALSE'' s \<or> sublist ''True'' s \<or> sublist ''TRUE'' s"
  shows "typer s = Inr (PBool (\<not> (sublist ''False'' s \<or> sublist ''FALSE'' s)))"
  using assms by (auto simp: typer_def checks_simps sublist_single)

text \<open>\<open>infer("FALSE")\<close>, \<open>infer("True")\<close>, and a token that holds both words.\<close>

theorem typer_boolean_witness:
  "typer ''FALSE'' = Inr (PBool False) \<and> typer ''True'' = Inr (PBool True)
   \<and> typer ''TrueFalse'' = Inr (PBool False)"
  using typer_boolean[of "''FALSE''"] typer_boolean[of "''True''"] typer_boolean[of "''TrueFalse''"]
  by (simp add: sublist_Cons_right)

text \<open>The literal evaluator yields \<open>None\<close> only for a text that holds the word.\<close>

lemma sublist_append_left: "sublist xs ys \<Longrightarrow> sublist xs (zs @ ys)"
proof -
  assume "sublist xs ys"
  then obtain ps ss where "ys = ps @ xs @ ss"
    by (auto simp: sublist_def)
  then have "zs @ ys = (zs @ ps) @ xs @ ss"
    by simp
  then show ?thesis
    unfolding sublist_def by blast
qed

lemma number_of_text_kind:
  "number_of_text w = Some v \<Longrightarrow> (\<exists>n. v = PInt n) \<or> (\<exists>x. v = PFloat x)"
  by (auto simp: number_of_text_def Let_def split: if_splits)

lemma atom_of_text_None: "atom_of_text w = Some PNone \<Longrightarrow> w = ''None''"
  by (auto simp: atom_of_text_def negate_def dest!: number_of_text_kind
      split: if_splits list.splits)

lemma flush_None:
  assumes "flush acc rest = Some toks" "TAtom PNone \<in> set toks"
  shows "acc = ''None'' \<or> (\<exists>r. rest = Some r \<and> TAtom PNone \<in> set r)"
proof (cases "acc = []")
  case True
  with assms show ?thesis by (simp add: flush_def)
next
  case False
  with assms obtain v r where v: "atom_of_text acc = Some v" and r: "rest = Some r"
    and t: "toks = TAtom v # r"
    by (auto simp: flush_def split: option.splits)
  from assms(2) t have "v = PNone \<or> TAtom PNone \<in> set r" by auto
  with v r atom_of_text_None show ?thesis by auto
qed

lemma cons_token_None:
  assumes "map_option (Cons t) r = Some toks" "TAtom PNone \<in> set toks" "t \<noteq> TAtom PNone"
  shows "\<exists>toks'. r = Some toks' \<and> TAtom PNone \<in> set toks'"
  using assms by (cases r) auto

lemma lit_scan_None:
  "lit_scan q acc s = Some toks \<Longrightarrow> TAtom PNone \<in> set toks \<Longrightarrow> sublist ''None'' (acc @ s)"
proof (induction q acc s arbitrary: toks rule: lit_scan.induct)
  case (1 acc)
  then have "flush acc (Some []) = Some toks" by simp
  from flush_None[OF this "1.prems"(2)] show ?case by auto
next
  case (2 q acc)
  then show ?case by simp
next
  case (3 acc c cs)
  have rest: "sublist ''None'' (acc @ c # cs)"
    if "lit_scan q' [] cs = Some toks'" "TAtom PNone \<in> set toks'"
      "\<And>toks. lit_scan q' [] cs = Some toks \<Longrightarrow> TAtom PNone \<in> set toks \<Longrightarrow> sublist ''None'' ([] @ cs)"
    for q' toks'
  proof -
    from that have "sublist ''None'' cs" by simp
    then have "sublist ''None'' ((acc @ [c]) @ cs)" by (rule sublist_append_left)
    then show ?thesis by simp
  qed
  have pre: "sublist ''None'' (acc @ c # cs)" if "acc = ''None''"
    using that by (simp add: sublist_Cons_right)
  consider (sq) "c = CHR ''[''" | (sqc) "c = CHR '']''" | (ro) "c = CHR ''(''" | (rc) "c = CHR '')''"
    | (co) "c = CHR '',''" | (qu) "c = CHR 0x27 \<or> c = CHR 0x22"
    | (ws) "c = CHR 0x20 \<or> c = CHR 0x09 \<or> c = CHR 0x0A \<or> c = CHR 0x0D"
    | (other) "c \<noteq> CHR ''[''" "c \<noteq> CHR '']''" "c \<noteq> CHR ''(''" "c \<noteq> CHR '')''" "c \<noteq> CHR '',''"
        "\<not> (c = CHR 0x27 \<or> c = CHR 0x22)"
        "\<not> (c = CHR 0x20 \<or> c = CHR 0x09 \<or> c = CHR 0x0A \<or> c = CHR 0x0D)"
    by blast
  then show ?case
  proof cases
    case sq
    with "3.prems" have f: "flush acc (map_option (Cons (TOpen Square)) (lit_scan None [] cs)) = Some toks"
      by simp
    from flush_None[OF f "3.prems"(2)] show ?thesis
    proof
      assume "acc = ''None''" then show ?thesis by (rule pre)
    next
      assume "\<exists>r. map_option (Cons (TOpen Square)) (lit_scan None [] cs) = Some r \<and> TAtom PNone \<in> set r"
      then obtain r where "map_option (Cons (TOpen Square)) (lit_scan None [] cs) = Some r" "TAtom PNone \<in> set r"
        by blast
      from cons_token_None[OF this] obtain toks' where
        "lit_scan None [] cs = Some toks'" "TAtom PNone \<in> set toks'" by auto
      then show ?thesis
        using "3.IH"(1)[OF sq] by (intro rest[of None toks']) auto
    qed
  next
    case sqc
    then have c: "c \<noteq> CHR ''[''" by simp
    with sqc "3.prems" have f: "flush acc (map_option (Cons (TClose Square)) (lit_scan None [] cs)) = Some toks"
      by simp
    from flush_None[OF f "3.prems"(2)] show ?thesis
    proof
      assume "acc = ''None''" then show ?thesis by (rule pre)
    next
      assume "\<exists>r. map_option (Cons (TClose Square)) (lit_scan None [] cs) = Some r \<and> TAtom PNone \<in> set r"
      then obtain r where "map_option (Cons (TClose Square)) (lit_scan None [] cs) = Some r" "TAtom PNone \<in> set r"
        by blast
      from cons_token_None[OF this] obtain toks' where
        "lit_scan None [] cs = Some toks'" "TAtom PNone \<in> set toks'" by auto
      then show ?thesis
        using "3.IH"(2)[OF c sqc] by (intro rest[of None toks']) auto
    qed
  next
    case ro
    then have c: "c \<noteq> CHR ''[''" "c \<noteq> CHR '']''" by simp_all
    with ro "3.prems" have f: "flush acc (map_option (Cons (TOpen Round)) (lit_scan None [] cs)) = Some toks"
      by simp
    from flush_None[OF f "3.prems"(2)] show ?thesis
    proof
      assume "acc = ''None''" then show ?thesis by (rule pre)
    next
      assume "\<exists>r. map_option (Cons (TOpen Round)) (lit_scan None [] cs) = Some r \<and> TAtom PNone \<in> set r"
      then obtain r where "map_option (Cons (TOpen Round)) (lit_scan None [] cs) = Some r" "TAtom PNone \<in> set r"
        by blast
      from cons_token_None[OF this] obtain toks' where
        "lit_scan None [] cs = Some toks'" "TAtom PNone \<in> set toks'" by auto
      then show ?thesis
        using "3.IH"(3)[OF c ro] by (intro rest[of None toks']) auto
    qed
  next
    case rc
    then have c: "c \<noteq> CHR ''[''" "c \<noteq> CHR '']''" "c \<noteq> CHR ''(''" by simp_all
    with rc "3.prems" have f: "flush acc (map_option (Cons (TClose Round)) (lit_scan None [] cs)) = Some toks"
      by simp
    from flush_None[OF f "3.prems"(2)] show ?thesis
    proof
      assume "acc = ''None''" then show ?thesis by (rule pre)
    next
      assume "\<exists>r. map_option (Cons (TClose Round)) (lit_scan None [] cs) = Some r \<and> TAtom PNone \<in> set r"
      then obtain r where "map_option (Cons (TClose Round)) (lit_scan None [] cs) = Some r" "TAtom PNone \<in> set r"
        by blast
      from cons_token_None[OF this] obtain toks' where
        "lit_scan None [] cs = Some toks'" "TAtom PNone \<in> set toks'" by auto
      then show ?thesis
        using "3.IH"(4)[OF c rc] by (intro rest[of None toks']) auto
    qed
  next
    case co
    then have c: "c \<noteq> CHR ''[''" "c \<noteq> CHR '']''" "c \<noteq> CHR ''(''" "c \<noteq> CHR '')''" by simp_all
    with co "3.prems" have f: "flush acc (map_option (Cons TComma) (lit_scan None [] cs)) = Some toks"
      by simp
    from flush_None[OF f "3.prems"(2)] show ?thesis
    proof
      assume "acc = ''None''" then show ?thesis by (rule pre)
    next
      assume "\<exists>r. map_option (Cons TComma) (lit_scan None [] cs) = Some r \<and> TAtom PNone \<in> set r"
      then obtain r where "map_option (Cons TComma) (lit_scan None [] cs) = Some r" "TAtom PNone \<in> set r"
        by blast
      from cons_token_None[OF this] obtain toks' where
        "lit_scan None [] cs = Some toks'" "TAtom PNone \<in> set toks'" by auto
      then show ?thesis
        using "3.IH"(5)[OF c co] by (intro rest[of None toks']) auto
    qed
  next
    case qu
    then have c: "c \<noteq> CHR ''[''" "c \<noteq> CHR '']''" "c \<noteq> CHR ''(''" "c \<noteq> CHR '')''" "c \<noteq> CHR '',''"
      by auto
    with qu "3.prems" have f: "flush acc (lit_scan (Some c) [] cs) = Some toks"
      by auto
    from flush_None[OF f "3.prems"(2)] show ?thesis
    proof
      assume "acc = ''None''" then show ?thesis by (rule pre)
    next
      assume "\<exists>r. lit_scan (Some c) [] cs = Some r \<and> TAtom PNone \<in> set r"
      then obtain r where "lit_scan (Some c) [] cs = Some r" "TAtom PNone \<in> set r"
        by blast
      then show ?thesis
        using "3.IH"(6)[OF c qu] by (intro rest[of "Some c" r]) auto
    qed
  next
    case ws
    with "3.prems" show ?thesis by auto
  next
    case other
    with "3.prems" have "lit_scan None (acc @ [c]) cs = Some toks"
      by auto
    from "3.IH"(7)[OF other(1-5) other(6) other(7) this "3.prems"(2)] show ?thesis
      by simp
  qed
next
  case (4 q acc c cs)
  show ?case
  proof (cases "c = q")
    case True
    with "4.prems" obtain r where r: "lit_scan None [] cs = Some r" "TAtom PNone \<in> set r"
      by (cases "lit_scan None [] cs") auto
    from "4.IH"(1)[OF True r] have "sublist ''None'' cs" by simp
    then have "sublist ''None'' ((acc @ [c]) @ cs)" by (rule sublist_append_left)
    then show ?thesis by simp
  next
    case False
    show ?thesis
    proof (cases "c = CHR 0x5C \<or> c = CHR 0x0A \<or> c = CHR 0x0D")
      case True
      with False "4.prems" show ?thesis by auto
    next
      case nb: False
      with False "4.prems" have "lit_scan (Some q) (acc @ [c]) cs = Some toks"
        by auto
      from "4.IH"(2)[OF False nb this "4.prems"(2)] show ?thesis by simp
    qed
  qed
qed


text \<open>
  No \<open>None\<close> in the items and the pending value of the parser: it holds while no token
  is the atom \<open>None\<close>.
\<close>

definition none_free :: "frame list \<times> pyval option \<Rightarrow> bool" where
  "none_free st = (list_all (\<lambda>(k, items, had_comma). PNone \<notin> set items) (fst st) \<and> snd st \<noteq> Some PNone)"

lemma close_frame_not_None: "PNone \<notin> set items \<Longrightarrow> close_frame k items had_comma \<noteq> PNone"
  by (auto simp: close_frame_def split: bracket.splits list.splits)

lemma lit_step_none_free:
  assumes "lit_step t st = Some st'" "none_free st" "t \<noteq> TAtom PNone"
  shows "none_free st'"
proof (cases st)
  case (Pair stack cur)
  show ?thesis
  proof (cases t)
    case (TOpen b)
    with assms Pair show ?thesis
      by (cases cur) (auto simp: none_free_def)
  next
    case (TClose b)
    show ?thesis
    proof (cases stack)
      case Nil
      with assms Pair TClose show ?thesis by simp
    next
      case (Cons f rest)
      obtain k items hc where f: "f = (k, items, hc)" by (cases f) auto
      let ?items = "case cur of None \<Rightarrow> items | Some v \<Rightarrow> v # items"
      from assms(2) Pair Cons f have "PNone \<notin> set ?items"
        by (cases cur) (auto simp: none_free_def)
      then have "close_frame k ?items hc \<noteq> PNone"
        by (rule close_frame_not_None)
      with assms Pair Cons f TClose show ?thesis
        by (auto simp: none_free_def split: if_splits)
    qed
  next
    case TComma
    show ?thesis
    proof (cases stack)
      case Nil
      with assms Pair TComma show ?thesis by (cases cur) simp_all
    next
      case (Cons f rest)
      obtain k items hc where f: "f = (k, items, hc)" by (cases f) auto
      with assms Pair Cons TComma show ?thesis
        by (cases cur) (auto simp: none_free_def)
    qed
  next
    case (TAtom v)
    with assms Pair show ?thesis
      by (cases cur) (auto simp: none_free_def)
  qed
qed

lemma lit_parse_not_None:
  "none_free st \<Longrightarrow> TAtom PNone \<notin> set toks \<Longrightarrow> lit_parse toks st \<noteq> Some PNone"
proof (induction toks arbitrary: st)
  case Nil
  obtain stack cur where st: "st = (stack, cur)" by (cases st) auto
  show ?case
  proof (cases "\<exists>items hc. stack = [(Top, items, hc)]")
    case True
    then obtain items hc where s: "stack = [(Top, items, hc)]" by auto
    with Nil st show ?thesis
      by (cases cur) (auto simp: none_free_def)
  next
    case False
    then have "lit_parse [] (stack, cur) = None"
      by (cases "(([] :: lit_token list), (stack, cur))" rule: lit_parse.cases) auto
    with st show ?thesis by simp
  qed
next
  case (Cons t toks)
  show ?case
  proof (cases "lit_step t st")
    case None
    then show ?thesis by simp
  next
    case (Some st')
    from Cons.prems have "t \<noteq> TAtom PNone" "TAtom PNone \<notin> set toks" by auto
    from lit_step_none_free[OF Some Cons.prems(1) this(1)] Cons.IH[OF _ this(2)] Some
    show ?thesis by simp
  qed
qed

lemma literal_eval_None:
  assumes "literal_eval s = Inr PNone"
  shows "sublist ''None'' s"
proof -
  let ?t = "dropWhile (\<lambda>c. c = CHR 0x20 \<or> c = CHR 0x09) s"
  from assms obtain toks where t: "lit_scan None [] ?t = Some toks"
    and p: "lit_parse toks ([(Top, [], False)], None) = Some PNone"
    by (auto simp: literal_eval_def split: option.splits)
  have "none_free ([(Top, [], False)], None)"
    by (simp add: none_free_def)
  with lit_parse_not_None[of "([(Top, [], False)], None)" toks] p have "TAtom PNone \<in> set toks"
    by blast
  from lit_scan_None[OF t this] have "sublist ''None'' ?t" by simp
  then have "sublist ''None'' (takeWhile (\<lambda>c. c = CHR 0x20 \<or> c = CHR 0x09) s @ ?t)"
    by (rule sublist_append_left)
  then show ?thesis by simp
qed

lemma py_int_not_None: "py_int s \<noteq> Inr PNone"
  by (simp add: py_int_def Let_def)

text \<open>
  Claim C5, as amended. For a token without a quote character and without the Boolean
  substrings, the inferencer returns Null if and only if the token holds \<open>None\<close> as a
  substring (\<open>none_check\<close> is \<open>'None' in value_string\<close>); no later branch yields Null.
\<close>

theorem typer_null:
  assumes "CHR 0x27 \<notin> set s" "CHR 0x22 \<notin> set s"
    and "\<not> sublist ''False'' s" "\<not> sublist ''FALSE'' s" "\<not> sublist ''True'' s" "\<not> sublist ''TRUE'' s"
  shows "typer s = Inr PNone \<longleftrightarrow> sublist ''None'' s"
proof
  assume "sublist ''None'' s"
  with assms show "typer s = Inr PNone"
    by (simp add: typer_def checks_simps sublist_single)
next
  assume t: "typer s = Inr PNone"
  show "sublist ''None'' s"
  proof (rule ccontr)
    assume n: "\<not> sublist ''None'' s"
    with assms have "typer s = literal_eval s \<or> typer s = py_int s"
      by (simp add: typer_def checks_simps sublist_single)
    with t py_int_not_None[of s] have "literal_eval s = Inr PNone"
      by auto
    from literal_eval_None[OF this] n show False by simp
  qed
qed

theorem typer_null_witness:
  "typer ''None'' = Inr PNone \<and> typer ''None2'' = Inr PNone \<and> typer ''8'' \<noteq> Inr PNone"
  using typer_null[of "''None''"] typer_null[of "''None2''"] typer_null[of "''8''"]
  by (simp add: sublist_Cons_right)

text \<open>
  Claim C5 as stated fails: \<open>None2\<close> is not the text \<open>None\<close> and is inferred as Null.
\<close>

theorem typer_null_counterexample:
  "typer ''None2'' = Inr PNone \<and> ''None2'' \<noteq> ''None''"
  by (simp add: typer_def checks_simps sublist_Cons_right)

text \<open>
  \<open>compiled_float_regex.match\<close> succeeds exactly on the texts that start with digits, an
  \<open>e\<close> or \<open>E\<close>, any number of \<open>-\<close> and a digit.
\<close>

lemma class_match_Digit: "class_match Digit = is_digit"
  by (rule ext) (simp add: is_digit_def)

lemma float_regex_matches:
  "re_matches compiled_float_regex s \<longleftrightarrow>
     (\<exists>ds e dashes d rest. s = ds @ e # dashes @ d # rest
        \<and> ds \<noteq> [] \<and> list_all is_digit ds \<and> (e = CHR ''e'' \<or> e = CHR ''E'')
        \<and> list_all (\<lambda>c. c = CHR ''-'') dashes \<and> is_digit d)"
  (is "?L \<longleftrightarrow> ?R")
proof
  assume ?R
  then obtain ds e dashes d rest where s: "s = ds @ e # dashes @ d # rest"
    and ds: "ds \<noteq> []" "list_all is_digit ds" and e: "e = CHR ''e'' \<or> e = CHR ''E''"
    and da: "list_all (\<lambda>c. c = CHR ''-'') dashes" and d: "is_digit d"
    by blast
  from ds obtain x u where xu: "ds = x # u" "is_digit x" "list_all is_digit u"
    by (cases ds) auto
  show ?L
  proof (rule ccontr)
    assume "\<not> ?L"
    then have "re_match (Plus Digit # [One (OneOf ''eE''), Star (Lit CHR ''-''), Plus Digit]) s 0 [] = None"
      by (simp add: re_matches_def compiled_float_regex_def)
    from this[unfolded plus_none, rule_format, of x "u @ e # dashes @ d # rest"] s xu
    have "re_match (Star Digit # [One (OneOf ''eE''), Star (Lit CHR ''-''), Plus Digit])
            (u @ e # dashes @ d # rest) (Suc 0) [] = None"
      by (simp add: class_match_Digit)
    from this[unfolded star_none, rule_format, of u "e # dashes @ d # rest"] xu
    have "re_match (One (OneOf ''eE'') # [Star (Lit CHR ''-''), Plus Digit])
            (e # dashes @ d # rest) (Suc 0 + length u) [] = None"
      by (simp add: class_match_Digit)
    with e have "re_match (Star (Lit CHR ''-'') # [Plus Digit])
            (dashes @ d # rest) (Suc (Suc 0 + length u)) [] = None"
      by auto
    from this[unfolded star_none, rule_format, of dashes "d # rest"] da
    have "re_match [Plus Digit] (d # rest) (Suc (Suc 0 + length u) + length dashes) [] = None"
      by (simp add: list_all_iff)
    with d show False
      by (simp add: class_match_Digit re_match_last_star)
  qed
next
  assume ?L
  then have "re_match (Plus Digit # [One (OneOf ''eE''), Star (Lit CHR ''-''), Plus Digit]) s 0 [] \<noteq> None"
    by (simp add: re_matches_def compiled_float_regex_def)
  then obtain x xs where 1: "s = x # xs" "is_digit x"
     "re_match (Star Digit # [One (OneOf ''eE''), Star (Lit CHR ''-''), Plus Digit]) xs (Suc 0) [] \<noteq> None"
    unfolding plus_none class_match_Digit by blast
  from 1(3) obtain u v where 2: "xs = u @ v" "list_all is_digit u"
     "re_match (One (OneOf ''eE'') # [Star (Lit CHR ''-''), Plus Digit]) v (Suc 0 + length u) [] \<noteq> None"
    unfolding star_none class_match_Digit by blast
  from 2(3) obtain e t where 3: "v = e # t" "class_match (OneOf ''eE'') e"
     "re_match (Star (Lit CHR ''-'') # [Plus Digit]) t (Suc (Suc 0 + length u)) [] \<noteq> None"
    unfolding one_none by blast
  from 3(3) obtain u' v' where 4: "t = u' @ v'" "list_all (class_match (Lit CHR ''-'')) u'"
     "re_match (Plus Digit # []) v' (Suc (Suc 0 + length u) + length u') [] \<noteq> None"
    unfolding star_none by blast
  from 4(3) obtain d rest where 5: "v' = d # rest" "is_digit d"
    unfolding plus_none class_match_Digit by blast
  have "s = (x # u) @ e # u' @ d # rest"
    using 1 2 3 4 5 by simp
  moreover have "list_all is_digit (x # u)" using 1 2 by simp
  moreover have "e = CHR ''e'' \<or> e = CHR ''E''" using 3 by simp
  moreover have "list_all (\<lambda>c. c = CHR ''-'') u'" using 4 by (simp add: list_all_iff)
  ultimately show ?R
    using 5 by blast
qed


text \<open>
  A character that the scanner of \<open>literal_eval\<close> adds to the running text: no bracket,
  comma, quote or white space.
\<close>

definition plain :: "char \<Rightarrow> bool" where
  "plain c = (c \<notin> set ''[](),'' \<and> c \<noteq> CHR 0x27 \<and> c \<noteq> CHR 0x22
              \<and> c \<noteq> CHR 0x20 \<and> c \<noteq> CHR 0x09 \<and> c \<noteq> CHR 0x0A \<and> c \<noteq> CHR 0x0D)"

lemma lit_scan_plain:
  "list_all plain cs \<Longrightarrow> lit_scan None acc cs = flush (acc @ cs) (Some [])"
  by (induction cs arbitrary: acc) (auto simp: plain_def)

lemma literal_eval_atom:
  assumes "list_all plain s" "s \<noteq> []" "atom_of_text s = Some v"
  shows "literal_eval s = Inr v"
proof -
  from assms(1,2) have "dropWhile (\<lambda>c. c = CHR 0x20 \<or> c = CHR 0x09) s = s"
    by (cases s) (auto simp: plain_def)
  moreover have "lit_scan None [] s = Some [TAtom v]"
    using assms by (simp add: lit_scan_plain flush_def)
  ultimately show ?thesis
    by (simp add: literal_eval_def)
qed

lemma number_of_text_exp:
  assumes "ds \<noteq> []" "list_all is_digit ds" "ed \<noteq> []" "list_all is_digit ed"
    and "e = CHR ''e'' \<or> e = CHR ''E''" and "sign = [] \<or> sign = ''-''"
  shows "number_of_text (ds @ e # sign @ ed)
         = Some (PFloat (of_int (digits_val ds)
                   * pow10 (if sign = [] then digits_val ed else - digits_val ed)))"
proof -
  have e: "\<not> is_digit e" using assms(5) by (auto simp: is_digit_def)
  from assms(2) have ds: "\<forall>x\<in>set ds. is_digit x" by (simp add: list_all_iff)
  from assms(3,4) obtain d ed' where ed: "ed = d # ed'" "is_digit d"
    by (cases ed) auto
  then have d: "d \<noteq> CHR ''-''" "d \<noteq> CHR ''+''" by (auto simp: is_digit_def)
  have tw: "takeWhile is_digit (ds @ e # sign @ ed) = ds"
    using ds e by simp
  have dw: "dropWhile is_digit (ds @ e # sign @ ed) = e # sign @ ed"
    using ds e by simp
  have ne: "e \<noteq> CHR ''.''" using assms(5) by auto
  from assms(6) show ?thesis
  proof
    assume "sign = []"
    with tw dw ne assms(1,3,4,5) ed d show ?thesis
      by (simp add: number_of_text_def Let_def)
  next
    assume "sign = ''-''"
    with tw dw ne assms(1,3,4,5) ed d show ?thesis
      by (simp add: number_of_text_def Let_def)
  qed
qed

lemma number_of_text_point:
  assumes "list_all is_digit ip" "list_all is_digit fp" "ip \<noteq> [] \<or> fp \<noteq> []"
  shows "number_of_text (ip @ CHR ''.'' # fp)
         = Some (PFloat (of_int (digits_val (ip @ fp)) * pow10 (- int (length fp))))"
proof -
  have p: "\<not> is_digit CHR ''.''" by (simp add: is_digit_def)
  from assms(1) have ip: "\<forall>x\<in>set ip. is_digit x" by (simp add: list_all_iff)
  from assms(2) have fp: "\<forall>x\<in>set fp. is_digit x" by (simp add: list_all_iff)
  have tw: "takeWhile is_digit (ip @ CHR ''.'' # fp) = ip"
    using ip p by simp
  have dw: "dropWhile is_digit (ip @ CHR ''.'' # fp) = CHR ''.'' # fp"
    using ip p by simp
  have tf: "takeWhile is_digit fp = fp" "dropWhile is_digit fp = []"
    using fp by simp_all
  from tw dw assms(3) show ?thesis
    by (simp add: number_of_text_def Let_def tf)
qed

lemma atom_of_text_number:
  assumes "s = c # r" "is_digit c \<or> c = CHR ''.''"
  shows "atom_of_text s = number_of_text s"
  using assms by (auto simp: atom_of_text_def is_digit_def)

lemma not_sublist_char: "c \<in> set w \<Longrightarrow> c \<notin> set s \<Longrightarrow> \<not> sublist w s"
  using set_mono_sublist by fastforce

lemma typer_step6:
  assumes "CHR 0x27 \<notin> set s" "CHR 0x22 \<notin> set s"
    and "\<not> sublist ''False'' s" "\<not> sublist ''FALSE'' s" "\<not> sublist ''True'' s" "\<not> sublist ''TRUE'' s"
    and "\<not> sublist ''None'' s"
    and "\<not> (CHR ''['' \<in> set s \<and> CHR '']'' \<in> set s)"
    and "\<not> (CHR ''('' \<in> set s \<and> CHR '')'' \<in> set s)"
  shows "typer s = (if CHR ''.'' \<in> set s \<or> re_matches compiled_float_regex s
                    then literal_eval s else py_int s)"
  using assms by (auto simp: typer_def checks_simps sublist_single)

text \<open>The characters of a decimal float without sign in front.\<close>

definition float_char :: "char \<Rightarrow> bool" where
  "float_char c = (is_digit c \<or> c = CHR ''e'' \<or> c = CHR ''E'' \<or> c = CHR ''-'' \<or> c = CHR ''.'')"

lemma typer_float_chars:
  assumes "list_all float_char s"
  shows "typer s = (if CHR ''.'' \<in> set s \<or> re_matches compiled_float_regex s
                    then literal_eval s else py_int s)"
proof (rule typer_step6)
  have n: "\<And>c. \<not> float_char c \<Longrightarrow> c \<notin> set s"
    using assms by (auto simp: list_all_iff)
  show "CHR 0x27 \<notin> set s" "CHR 0x22 \<notin> set s"
    by (rule n, simp add: float_char_def is_digit_def)+
  have F: "CHR ''F'' \<notin> set s" and T: "CHR ''T'' \<notin> set s" and N: "CHR ''N'' \<notin> set s"
    by (rule n, simp add: float_char_def is_digit_def)+
  show "\<not> sublist ''False'' s" "\<not> sublist ''FALSE'' s"
    by (rule not_sublist_char[OF _ F], simp)+
  show "\<not> sublist ''True'' s" "\<not> sublist ''TRUE'' s"
    by (rule not_sublist_char[OF _ T], simp)+
  show "\<not> sublist ''None'' s"
    by (rule not_sublist_char[OF _ N], simp)
  have "CHR ''['' \<notin> set s" "CHR ''('' \<notin> set s"
    by (rule n, simp add: float_char_def is_digit_def)+
  then show "\<not> (CHR ''['' \<in> set s \<and> CHR '']'' \<in> set s)" "\<not> (CHR ''('' \<in> set s \<and> CHR '')'' \<in> set s)"
    by simp_all
qed

lemma float_char_plain: "float_char c \<Longrightarrow> plain c"
  by (auto simp: float_char_def is_digit_def plain_def)

lemma typer_exp_float:
  assumes "ds \<noteq> []" "list_all is_digit ds" "ed \<noteq> []" "list_all is_digit ed"
    and "e = CHR ''e'' \<or> e = CHR ''E''" and "sign = [] \<or> sign = ''-''"
  shows "typer (ds @ e # sign @ ed)
         = Inr (PFloat (of_int (digits_val ds)
                   * pow10 (if sign = [] then digits_val ed else - digits_val ed)))"
proof -
  let ?s = "ds @ e # sign @ ed"
  have fc: "list_all float_char ?s"
    using assms by (auto simp: list_all_iff float_char_def)
  from assms(3,4) obtain d ed' where ed: "ed = d # ed'" "is_digit d"
    by (cases ed) auto
  have "re_matches compiled_float_regex ?s"
    unfolding float_regex_matches
  proof (intro exI conjI)
    show "?s = ds @ e # sign @ d # ed'" using ed by simp
    show "list_all (\<lambda>c. c = CHR ''-'') sign" using assms(6) by auto
  qed (use assms ed in auto)
  then have "typer ?s = literal_eval ?s"
    using typer_float_chars[OF fc] by simp
  moreover from assms(1,2) obtain c r where "?s = c # r" "is_digit c"
    by (cases ds) auto
  then have "atom_of_text ?s = number_of_text ?s"
    by (intro atom_of_text_number) auto
  moreover have "list_all plain ?s"
    using fc by (auto simp: list_all_iff float_char_plain)
  ultimately show ?thesis
    using literal_eval_atom[of ?s] number_of_text_exp[OF assms] by simp
qed

lemma typer_point_float:
  assumes "list_all is_digit ip" "list_all is_digit fp" "ip \<noteq> [] \<or> fp \<noteq> []"
  shows "typer (ip @ CHR ''.'' # fp)
         = Inr (PFloat (of_int (digits_val (ip @ fp)) * pow10 (- int (length fp))))"
proof -
  let ?s = "ip @ CHR ''.'' # fp"
  have fc: "list_all float_char ?s"
    using assms by (auto simp: list_all_iff float_char_def)
  have "typer ?s = literal_eval ?s"
    using typer_float_chars[OF fc] by simp
  moreover obtain c r where "?s = c # r" "is_digit c \<or> c = CHR ''.''"
    using assms(1) by (cases ip) auto
  then have "atom_of_text ?s = number_of_text ?s"
    by (intro atom_of_text_number) auto
  moreover have "list_all plain ?s"
    using fc by (auto simp: list_all_iff float_char_plain)
  ultimately show ?thesis
    using literal_eval_atom[of ?s] number_of_text_point[OF assms] by simp
qed

text \<open>
  Claim C9, as amended. A token that reaches the last two branches of \<open>_typer\<close> (no
  quote character, none of the Boolean substrings, not the substring \<open>None\<close>, not both
  square brackets, not both round brackets) is handed to \<open>literal_eval\<close> exactly when it
  holds a \<open>.\<close> or starts with digits, \<open>e\<close> or \<open>E\<close>, any number of \<open>-\<close>, and a digit;
  what \<open>literal_eval\<close> returns or raises is the outcome. Every other token goes to
  \<open>int\<close>, which returns an integer or raises \<open>ValueError\<close>. A token that is digits,
  \<open>e\<close> or \<open>E\<close>, at most one \<open>-\<close>, digits, and a token that is digits around one
  \<open>.\<close>, are inferred as the float of that literal.
\<close>

theorem typer_number:
  "(CHR 0x27 \<notin> set s \<and> CHR 0x22 \<notin> set s
      \<and> \<not> sublist ''False'' s \<and> \<not> sublist ''FALSE'' s \<and> \<not> sublist ''True'' s \<and> \<not> sublist ''TRUE'' s
      \<and> \<not> sublist ''None'' s
      \<and> \<not> (CHR ''['' \<in> set s \<and> CHR '']'' \<in> set s) \<and> \<not> (CHR ''('' \<in> set s \<and> CHR '')'' \<in> set s) \<longrightarrow>
      typer s = (if CHR ''.'' \<in> set s
                    \<or> (\<exists>ms x dashes d rest. s = ms @ x # dashes @ d # rest
                          \<and> ms \<noteq> [] \<and> list_all is_digit ms \<and> (x = CHR ''e'' \<or> x = CHR ''E'')
                          \<and> list_all (\<lambda>c. c = CHR ''-'') dashes \<and> is_digit d)
                 then literal_eval s else py_int s)
      \<and> ((\<exists>n. py_int s = Inr (PInt n)) \<or> py_int s = Inl ValueError)
      \<and> ((\<exists>v. literal_eval s = Inr v) \<or> literal_eval s = Inl LiteralError))
   \<and> (ds \<noteq> [] \<and> list_all is_digit ds \<and> ed \<noteq> [] \<and> list_all is_digit ed
        \<and> (e = CHR ''e'' \<or> e = CHR ''E'') \<and> (sign = [] \<or> sign = ''-'') \<longrightarrow>
      typer (ds @ e # sign @ ed)
        = Inr (PFloat (of_int (digits_val ds)
                 * pow10 (if sign = [] then digits_val ed else - digits_val ed))))
   \<and> (list_all is_digit ip \<and> list_all is_digit fp \<and> (ip \<noteq> [] \<or> fp \<noteq> []) \<longrightarrow>
      typer (ip @ CHR ''.'' # fp)
        = Inr (PFloat (of_int (digits_val (ip @ fp)) * pow10 (- int (length fp)))))"
proof (intro conjI impI)
  assume a: "CHR 0x27 \<notin> set s \<and> CHR 0x22 \<notin> set s
      \<and> \<not> sublist ''False'' s \<and> \<not> sublist ''FALSE'' s \<and> \<not> sublist ''True'' s \<and> \<not> sublist ''TRUE'' s
      \<and> \<not> sublist ''None'' s
      \<and> \<not> (CHR ''['' \<in> set s \<and> CHR '']'' \<in> set s) \<and> \<not> (CHR ''('' \<in> set s \<and> CHR '')'' \<in> set s)"
  then have "typer s = (if CHR ''.'' \<in> set s \<or> re_matches compiled_float_regex s
                        then literal_eval s else py_int s)"
    by (intro typer_step6) simp_all
  then show "typer s = (if CHR ''.'' \<in> set s
                    \<or> (\<exists>ms x dashes d rest. s = ms @ x # dashes @ d # rest
                          \<and> ms \<noteq> [] \<and> list_all is_digit ms \<and> (x = CHR ''e'' \<or> x = CHR ''E'')
                          \<and> list_all (\<lambda>c. c = CHR ''-'') dashes \<and> is_digit d)
                 then literal_eval s else py_int s)"
    unfolding float_regex_matches .
next
  show "(\<exists>n. py_int s = Inr (PInt n)) \<or> py_int s = Inl ValueError"
    by (simp add: py_int_def Let_def)
next
  show "(\<exists>v. literal_eval s = Inr v) \<or> literal_eval s = Inl LiteralError"
    by (simp add: literal_eval_def split: option.splits)
next
  assume "ds \<noteq> [] \<and> list_all is_digit ds \<and> ed \<noteq> [] \<and> list_all is_digit ed
        \<and> (e = CHR ''e'' \<or> e = CHR ''E'') \<and> (sign = [] \<or> sign = ''-'')"
  then show "typer (ds @ e # sign @ ed)
        = Inr (PFloat (of_int (digits_val ds)
                 * pow10 (if sign = [] then digits_val ed else - digits_val ed)))"
    by (intro typer_exp_float) simp_all
next
  assume "list_all is_digit ip \<and> list_all is_digit fp \<and> (ip \<noteq> [] \<or> fp \<noteq> [])"
  then show "typer (ip @ CHR ''.'' # fp)
        = Inr (PFloat (of_int (digits_val (ip @ fp)) * pow10 (- int (length fp))))"
    by (intro typer_point_float) simp_all
qed

text \<open>The tokens \<open>8\<close>, \<open>1e-2\<close> and \<open>8.0\<close>.\<close>

theorem typer_number_witness:
  "typer ''8'' = Inr (PInt 8) \<and> typer ''1e-2'' = Inr (PFloat (1 / 100))
   \<and> typer ''8.0'' = Inr (PFloat 8)"
proof -
  have n: "\<not> (\<exists>ms x dashes d rest. ''8'' = ms @ x # dashes @ d # rest
                \<and> ms \<noteq> [] \<and> list_all is_digit ms \<and> (x = CHR ''e'' \<or> x = CHR ''E'')
                \<and> list_all (\<lambda>c. c = CHR ''-'') dashes \<and> is_digit d)"
    by (auto simp: Cons_eq_append_conv)
  have p: "py_int ''8'' = Inr (PInt 8)"
    by code_simp
  note t = typer_number[where s = "''8''" and ds = "''1''" and e = "CHR ''e''" and sign = "''-''"
      and ed = "''2''" and ip = "''8''" and fp = "''0''"]
  from t[THEN conjunct1] n p have "typer ''8'' = Inr (PInt 8)"
    by (simp add: sublist_Cons_right)
  moreover from t[THEN conjunct2, THEN conjunct1] have "typer ''1e-2'' = Inr (PFloat (1 / 100))"
    by (simp add: is_digit_def digits_val_def pow10_def)
  moreover from t[THEN conjunct2, THEN conjunct2] have "typer ''8.0'' = Inr (PFloat 8)"
    by (simp add: is_digit_def digits_val_def pow10_def)
  ultimately show ?thesis by simp
qed

text \<open>
  Claim C9 as stated fails. \<open>1e5,2\<close> is not of the exponent shape as a whole and holds
  no \<open>.\<close>, yet it is evaluated as a literal, to a tuple, where \<open>int\<close> would raise;
  \<open>1.2.3\<close> holds a \<open>.\<close> and yields no float but the error of \<open>literal_eval\<close>; so does
  \<open>1e--5\<close>, which the pattern \<open>-*\<close> lets through.
\<close>

theorem typer_number_counterexample:
  "typer ''1e5,2'' = Inr (PTuple [PFloat 100000, PInt 2]) \<and> py_int ''1e5,2'' = Inl ValueError
   \<and> typer ''1.2.3'' = Inl LiteralError
   \<and> typer ''1e--5'' = Inl LiteralError \<and> py_int ''1e--5'' = Inl ValueError"
  by code_simp

section \<open>The lexer\<close>

text \<open>
  \<open>shlex.shlex\<close> of the standard library, as \<open>_parse_inlist\<close> uses it: not in POSIX
  mode, without punctuation characters, \<open>whitespace_split\<close> off, no \<open>source\<close> and an
  empty file stack. The Python state \<open>None\<close> (past the end of the input) is \<open>Eof\<close>,
  \<open>' '\<close> is \<open>White\<close>, \<open>'a'\<close> is \<open>Word\<close>, and a quote character \<open>q\<close> is \<open>Quoted q\<close>.
  \<open>instream\<close> is the text not yet read. \<open>self.token\<close> is empty whenever
  \<open>read_token\<close> is entered (\<open>__init__\<close> sets it so and \<open>read_token\<close> resets it before
  it returns), so it is an argument of the loop.
\<close>

datatype lex_state = Eof | White | Word | Quoted char

record shlex =
  instream :: string
  pushback :: "string list"
  lexstate :: lex_state
  commenters :: string
  wordchars :: string
  whitespace :: string
  quotes :: string
  escape :: string

definition shlex_init :: "string \<Rightarrow> shlex" where
  "shlex_init text =
     \<lparr> instream = text, pushback = [], lexstate = White,
       commenters = ''#'',
       wordchars = ''abcdfeghijklmnopqrstuvwxyzABCDEFGHIJKLMNOPQRSTUVWXYZ0123456789_'',
       whitespace = [CHR 0x20, CHR 0x09, CHR 0x0D, CHR 0x0A],
       quotes = [CHR 0x27, CHR 0x22],
       escape = [CHR 0x5C] \<rparr>"

definition readline :: "string \<Rightarrow> string" where
  "readline cs = drop 1 (dropWhile (\<lambda>c. c \<noteq> CHR 0x0A) cs)"

lemma length_readline: "length (readline cs) \<le> length cs"
proof -
  have "length (dropWhile (\<lambda>c. c \<noteq> CHR 0x0A) cs) \<le> length cs"
    by (rule length_dropWhile_le)
  then show ?thesis
    unfolding readline_def length_drop by linarith
qed

datatype step = Emit string shlex | Continue string shlex | Raise exn

definition at_eof :: "shlex \<Rightarrow> string \<Rightarrow> exn + string \<times> shlex" where
  "at_eof lexer tok =
     (case lexstate lexer of
        Eof \<Rightarrow> Inr ([], lexer)
      | White \<Rightarrow> Inr (tok, lexer\<lparr>lexstate := Eof\<rparr>)
      | Quoted q \<Rightarrow> Inl ValueError
      | Word \<Rightarrow> Inr (tok, lexer\<lparr>lexstate := Eof\<rparr>))"

definition at_char :: "shlex \<Rightarrow> string \<Rightarrow> char \<Rightarrow> step" where
  "at_char lexer tok nextchar =
     (case lexstate lexer of
        Eof \<Rightarrow> Emit [] lexer
      | White \<Rightarrow>
          if nextchar \<in> set (whitespace lexer) then
            (if tok \<noteq> [] then Emit tok lexer else Continue tok lexer)
          else if nextchar \<in> set (commenters lexer) then
            Continue tok (lexer\<lparr>instream := readline (instream lexer)\<rparr>)
          else if nextchar \<in> set (wordchars lexer) then
            Continue [nextchar] (lexer\<lparr>lexstate := Word\<rparr>)
          else if nextchar \<in> set (quotes lexer) then
            Continue [nextchar] (lexer\<lparr>lexstate := Quoted nextchar\<rparr>)
          else Emit [nextchar] lexer
      | Quoted q \<Rightarrow>
          if nextchar = q then Emit (tok @ [nextchar]) (lexer\<lparr>lexstate := White\<rparr>)
          else Continue (tok @ [nextchar]) lexer
      | Word \<Rightarrow>
          if nextchar \<in> set (whitespace lexer) then
            (if tok \<noteq> [] then Emit tok (lexer\<lparr>lexstate := White\<rparr>)
             else Continue tok (lexer\<lparr>lexstate := White\<rparr>))
          else if nextchar \<in> set (commenters lexer) then
            Continue tok (lexer\<lparr>instream := readline (instream lexer)\<rparr>)
          else if nextchar \<in> set (wordchars lexer) \<or> nextchar \<in> set (quotes lexer) then
            Continue (tok @ [nextchar]) lexer
          else
            (if tok \<noteq> [] then
               Emit tok (lexer\<lparr>pushback := [nextchar] # pushback lexer, lexstate := White\<rparr>)
             else Continue tok (lexer\<lparr>pushback := [nextchar] # pushback lexer, lexstate := White\<rparr>)))"

lemma at_char_Continue:
  "at_char lexer tok nextchar = Continue tok' lexer' \<Longrightarrow> length (instream lexer') \<le> length (instream lexer)"
  by (auto simp: at_char_def length_readline split: lex_state.splits if_splits)

function read_token_loop :: "shlex \<Rightarrow> string \<Rightarrow> exn + string \<times> shlex" where
  "read_token_loop lexer tok =
     (case instream lexer of
        [] \<Rightarrow> at_eof lexer tok
      | nextchar # rest \<Rightarrow>
          (case at_char (lexer\<lparr>instream := rest\<rparr>) tok nextchar of
             Emit t l \<Rightarrow> Inr (t, l)
           | Raise e \<Rightarrow> Inl e
           | Continue t l \<Rightarrow> read_token_loop l t))"
  by pat_completeness auto
termination
proof (relation "measure (\<lambda>(lexer, tok). length (instream lexer))")
  show "wf (measure (\<lambda>(lexer, tok). length (instream lexer)))" by simp
next
  fix lexer :: shlex and tok nextchar rest t l
  assume "instream lexer = nextchar # rest"
    and "at_char (lexer\<lparr>instream := rest\<rparr>) tok nextchar = Continue t l"
  then show "((l, t), lexer, tok) \<in> measure (\<lambda>(lexer, tok). length (instream lexer))"
    using at_char_Continue[of "lexer\<lparr>instream := rest\<rparr>" tok nextchar t l] by simp
qed

declare read_token_loop.simps [simp del]

definition read_token :: "shlex \<Rightarrow> exn + string \<times> shlex" where
  "read_token lexer = read_token_loop lexer []"

definition get_token :: "shlex \<Rightarrow> exn + string \<times> shlex" where
  "get_token lexer =
     (case pushback lexer of
        tok # rest \<Rightarrow> Inr (tok, lexer\<lparr>pushback := rest\<rparr>)
      | [] \<Rightarrow> read_token lexer)"


lemma at_char_measure:
  assumes "at_char lexer tok nextchar = Emit t l \<or> at_char lexer tok nextchar = Continue t l"
  shows "length (instream l) + length (pushback l) + length t
          \<le> Suc (length (instream lexer) + length (pushback lexer) + length tok)"
  using assms length_readline[of "instream lexer"]
  by (auto simp: at_char_def split: lex_state.splits if_splits)

lemma at_eof_measure:
  assumes "at_eof lexer tok = Inr (t, l)"
  shows "length (instream l) + length (pushback l) + length t
          \<le> length (instream lexer) + length (pushback lexer) + length tok"
  using assms by (auto simp: at_eof_def split: lex_state.splits)

lemma read_token_loop_measure:
  "read_token_loop lexer tok = Inr (t, l) \<Longrightarrow>
   length (instream l) + length (pushback l) + length t
     \<le> length (instream lexer) + length (pushback lexer) + length tok"
proof (induction lexer tok rule: read_token_loop.induct)
  case (1 lexer tok)
  show ?case
  proof (cases "instream lexer")
    case Nil
    with "1.prems" have "at_eof lexer tok = Inr (t, l)"
      by (simp add: read_token_loop.simps[of lexer tok])
    from at_eof_measure[OF this] show ?thesis .
  next
    case (Cons nextchar rest)
    show ?thesis
    proof (cases "at_char (lexer\<lparr>instream := rest\<rparr>) tok nextchar")
      case (Emit t' l')
      with Cons "1.prems" have "t' = t" "l' = l"
        by (simp_all add: read_token_loop.simps[of lexer tok])
      with Emit at_char_measure[of "lexer\<lparr>instream := rest\<rparr>" tok nextchar t l] Cons
      show ?thesis by simp
    next
      case (Continue t' l')
      with Cons "1.prems" have "read_token_loop l' t' = Inr (t, l)"
        by (simp add: read_token_loop.simps[of lexer tok])
      with "1.IH"[OF Cons Continue] have
        "length (instream l) + length (pushback l) + length t
          \<le> length (instream l') + length (pushback l') + length t'" .
      with Continue at_char_measure[of "lexer\<lparr>instream := rest\<rparr>" tok nextchar t' l'] Cons
      show ?thesis by simp
    next
      case (Raise e)
      with Cons "1.prems" show ?thesis
        by (simp add: read_token_loop.simps[of lexer tok])
    qed
  qed
qed

lemma get_token_measure:
  assumes "get_token lexer = Inr (t, l)"
  shows "length (instream l) + length (pushback l) \<le> length (instream lexer) + length (pushback lexer)"
    and "t \<noteq> [] \<Longrightarrow> length (instream l) + length (pushback l) < length (instream lexer) + length (pushback lexer)"
proof -
  have "length (instream l) + length (pushback l) + (if t = [] then 0 else 1)
          \<le> length (instream lexer) + length (pushback lexer)"
  proof (cases "pushback lexer")
    case Nil
    with assms have "read_token_loop lexer [] = Inr (t, l)"
      by (simp add: get_token_def read_token_def)
    from read_token_loop_measure[OF this] show ?thesis
      by (cases t) auto
  next
    case (Cons tok rest)
    with assms show ?thesis
      by (auto simp: get_token_def)
  qed
  then show "length (instream l) + length (pushback l) \<le> length (instream lexer) + length (pushback lexer)"
    and "t \<noteq> [] \<Longrightarrow> length (instream l) + length (pushback l) < length (instream lexer) + length (pushback lexer)"
    by (auto split: if_splits)
qed

section \<open>The custom-format loader\<close>

text \<open>
  A dictionary is the list of its entries in insertion order; \<open>d[k] = v\<close> is
  \<^const>\<open>AList.update\<close>, which replaces the value of a key that is present and appends
  an entry for a new key.
\<close>

type_synonym inlist_dict = "(string \<times> pyval) list"

text \<open>
  The loop \<open>for _i in _lex\<close> of \<open>_parse_inlist\<close>: the iterator stops at the token
  \<open>''\<close>; the second token (the \<open>=\<close> sign) is dropped unread, the third goes through
  \<open>_typer\<close>.
\<close>

function parse_entries :: "shlex \<Rightarrow> inlist_dict \<Rightarrow> exn + inlist_dict" where
  "parse_entries lexer dictionary_inlist =
     (case get_token lexer of
        Inl e \<Rightarrow> Inl e
      | Inr (keyword, lexer1) \<Rightarrow>
          if keyword = [] then Inr dictionary_inlist
          else
            (case get_token lexer1 of
               Inl e \<Rightarrow> Inl e
             | Inr (equals_sign, lexer2) \<Rightarrow>
                 (case get_token lexer2 of
                    Inl e \<Rightarrow> Inl e
                  | Inr (value_token, lexer3) \<Rightarrow>
                      (case typer value_token of
                         Inl e \<Rightarrow> Inl e
                       | Inr typed_value \<Rightarrow>
                           parse_entries lexer3 (AList.update keyword typed_value dictionary_inlist)))))"
  by pat_completeness auto
termination
proof (relation "measure (\<lambda>(lexer, d). length (instream lexer) + length (pushback lexer))")
  show "wf (measure (\<lambda>(lexer, d). length (instream lexer) + length (pushback lexer)))"
    by simp
next
  fix lexer :: shlex and dictionary_inlist :: inlist_dict
    and x1 keyword lexer1 x2 equals_sign lexer2 x3 value_token lexer3 typed_value
  assume "get_token lexer = Inr x1" "(keyword, lexer1) = x1" "keyword \<noteq> []"
    "get_token lexer1 = Inr x2" "(equals_sign, lexer2) = x2"
    "get_token lexer2 = Inr x3" "(value_token, lexer3) = x3"
  then have "get_token lexer = Inr (keyword, lexer1)" "get_token lexer1 = Inr (equals_sign, lexer2)"
    "get_token lexer2 = Inr (value_token, lexer3)" "keyword \<noteq> []"
    by simp_all
  from get_token_measure(2)[OF this(1) this(4)] get_token_measure(1)[OF this(2)]
    get_token_measure(1)[OF this(3)]
  show "((lexer3, AList.update keyword typed_value dictionary_inlist), lexer, dictionary_inlist)
          \<in> measure (\<lambda>(lexer, d). length (instream lexer) + length (pushback lexer))"
    by simp
qed

declare parse_entries.simps [simp del]

text \<open>\<open>_inlist.readlines()\<close>: the lines of a text, each with its line break.\<close>

fun lines_from :: "string \<Rightarrow> string \<Rightarrow> string list" where
  "lines_from cur [] = (if cur = [] then [] else [cur])"
| "lines_from cur (c # cs) =
     (if c = CHR 0x0A then (cur @ [c]) # lines_from [] cs else lines_from (cur @ [c]) cs)"

definition readlines :: "string \<Rightarrow> string list" where
  "readlines text = lines_from [] text"

text \<open>\<open>sep.join(parts)\<close>\<close>

fun join :: "string \<Rightarrow> string list \<Rightarrow> string" where
  "join sep [] = []"
| "join sep [x] = x"
| "join sep (x # y # ys) = x @ sep @ join sep (y # ys)"

text \<open>The lexer as \<open>_parse_inlist\<close> sets it up.\<close>

definition inlist_lexer :: "string \<Rightarrow> shlex" where
  "inlist_lexer text =
     (let lx = shlex_init (join [CHR 0x0A] (readlines text));
          lx = lx\<lparr>commenters := ''%''\<rparr>;
          lx = lx\<lparr>wordchars := wordchars lx @ ''.''\<rparr>;
          lx = lx\<lparr>wordchars := wordchars lx @ ''-''\<rparr>;
          lx = lx\<lparr>wordchars := wordchars lx @ ''[''\<rparr>;
          lx = lx\<lparr>wordchars := wordchars lx @ '']''\<rparr>;
          lx = lx\<lparr>wordchars := wordchars lx @ '',''\<rparr>;
          lx = lx\<lparr>wordchars := wordchars lx @ ''(''\<rparr>;
          lx = lx\<lparr>wordchars := wordchars lx @ '')''\<rparr>;
          lx = lx\<lparr>quotes := [CHR 0x27, CHR 0x22]\<rparr>;
          lx = lx\<lparr>escape := [CHR 0x0A]\<rparr>
      in lx)"

text \<open>
  \<open>InlistHandler._parse_inlist\<close>. The file system is a map from paths to the text of
  the file, as \<open>open\<close> in text mode delivers it; a missing file raises \<open>OSError\<close>
  (\<open>FileNotFoundError\<close>). The handlers for \<open>NameError\<close> and \<open>TypeError\<close> log and fall
  off the end of the function, which then returns \<open>None\<close>: the result \<open>Inr None\<close>.
\<close>

definition parse_inlist :: "(string \<Rightarrow> string option) \<Rightarrow> string \<Rightarrow> inlist_dict option \<Rightarrow> exn + inlist_dict option" where
  "parse_inlist fs inlist_path dictionary_inlist =
     (let d = (case dictionary_inlist of None \<Rightarrow> [] | Some d \<Rightarrow> d);
          body = (case fs inlist_path of
                    None \<Rightarrow> Inl OSError
                  | Some text \<Rightarrow> parse_entries (inlist_lexer text) d)
      in case body of
           Inl NameError \<Rightarrow> Inr None
         | Inl TypeError \<Rightarrow> Inr None
         | Inl e \<Rightarrow> Inl e
         | Inr result \<Rightarrow> Inr (Some result))"

text \<open>
  \<open>InlistHandler._get_default_inlist_values\<close>: the two groups of the match give the
  path of the defaults file; without a match the method raises \<open>NameError\<close>.
\<close>

definition match_defaults :: "string \<Rightarrow> (string \<times> string) option" where
  "match_defaults inlist_path =
     (case re_match compiled_regex_defaults inlist_path 0 [] of
        Some [b1, e1, b2, e2] \<Rightarrow>
          Some (take (e1 - b1) (drop b1 inlist_path), take (e2 - b2) (drop b2 inlist_path))
      | _ \<Rightarrow> None)"

definition get_default_inlist_values :: "(string \<Rightarrow> string option) \<Rightarrow> string \<Rightarrow> exn + inlist_dict option" where
  "get_default_inlist_values fs inlist_path =
     (case match_defaults inlist_path of
        None \<Rightarrow> Inl NameError
      | Some (group1, group2) \<Rightarrow>
          parse_inlist fs (group1 @ ''/defaults/'' @ group2 @ ''.defaults'') None)"

text \<open>\<open>InlistHandler.get_inlist_values\<close>\<close>

definition get_inlist_values :: "(string \<Rightarrow> string option) \<Rightarrow> string \<Rightarrow> exn + inlist_dict option" where
  "get_inlist_values fs inlist_path =
     exn_bind (get_default_inlist_values fs inlist_path) (\<lambda>dictionary_inlist_default.
     case parse_inlist fs inlist_path dictionary_inlist_default of
       Inl NameError \<Rightarrow> Inr None
     | Inl e \<Rightarrow> Inl e
     | Inr dictionary_inlist \<Rightarrow> Inr dictionary_inlist)"

subsection \<open>Properties of the loader\<close>

text \<open>One round of the loop of \<open>_parse_inlist\<close>: the three tokens of an entry.\<close>

definition next_entry :: "shlex \<Rightarrow> exn + (string \<times> pyval \<times> shlex) option" where
  "next_entry lexer =
     (case get_token lexer of
        Inl e \<Rightarrow> Inl e
      | Inr (keyword, lexer1) \<Rightarrow>
          if keyword = [] then Inr None
          else
            (case get_token lexer1 of
               Inl e \<Rightarrow> Inl e
             | Inr (equals_sign, lexer2) \<Rightarrow>
                 (case get_token lexer2 of
                    Inl e \<Rightarrow> Inl e
                  | Inr (value_token, lexer3) \<Rightarrow>
                      (case typer value_token of
                         Inl e \<Rightarrow> Inl e
                       | Inr typed_value \<Rightarrow> Inr (Some (keyword, typed_value, lexer3))))))"

lemma parse_entries_unfold:
  "parse_entries lexer d =
     (case next_entry lexer of
        Inl e \<Rightarrow> Inl e
      | Inr None \<Rightarrow> Inr d
      | Inr (Some (k, v, lexer')) \<Rightarrow> parse_entries lexer' (AList.update k v d))"
  by (subst parse_entries.simps) (simp add: next_entry_def split: sum.splits prod.splits)

lemma next_entry_measure:
  assumes "next_entry lexer = Inr (Some (k, v, lexer'))"
  shows "length (instream lexer') + length (pushback lexer') < length (instream lexer) + length (pushback lexer)"
proof -
  from assms obtain lexer1 t2 lexer2 t3 where
    g1: "get_token lexer = Inr (k, lexer1)" and k: "k \<noteq> []"
    and g2: "get_token lexer1 = Inr (t2, lexer2)"
    and g3: "get_token lexer2 = Inr (t3, lexer')"
    by (auto simp: next_entry_def split: sum.splits prod.splits if_splits)
  from get_token_measure(2)[OF g1 k] get_token_measure(1)[OF g2] get_token_measure(1)[OF g3]
  show ?thesis by simp
qed

lemma typer_error: "typer s = Inl e \<Longrightarrow> e = LiteralError \<or> e = ValueError"
  by (auto simp: typer_def checks_simps literal_eval_def py_int_def Let_def
      split: if_splits option.splits)

lemma at_char_no_raise: "at_char lexer tok c \<noteq> Raise e"
  by (auto simp: at_char_def split: lex_state.splits)

lemma at_eof_error: "at_eof lexer tok = Inl e \<Longrightarrow> e = ValueError"
  by (auto simp: at_eof_def split: lex_state.splits)

lemma read_token_loop_error: "read_token_loop lexer tok = Inl e \<Longrightarrow> e = ValueError"
proof (induction lexer tok rule: read_token_loop.induct)
  case (1 lexer tok)
  show ?case
  proof (cases "instream lexer")
    case Nil
    with "1.prems" show ?thesis
      by (simp add: read_token_loop.simps[of lexer tok] at_eof_error)
  next
    case (Cons nextchar rest)
    show ?thesis
    proof (cases "at_char (lexer\<lparr>instream := rest\<rparr>) tok nextchar")
      case (Emit t' l')
      with Cons "1.prems" show ?thesis
        by (simp add: read_token_loop.simps[of lexer tok])
    next
      case (Continue t' l')
      with Cons "1.prems" have "read_token_loop l' t' = Inl e"
        by (simp add: read_token_loop.simps[of lexer tok])
      with "1.IH"[OF Cons Continue] show ?thesis .
    next
      case (Raise e')
      with at_char_no_raise show ?thesis by blast
    qed
  qed
qed

lemma get_token_error: "get_token lexer = Inl e \<Longrightarrow> e = ValueError"
  by (auto simp: get_token_def read_token_def dest: read_token_loop_error split: list.splits)

lemma next_entry_error: "next_entry lexer = Inl e \<Longrightarrow> e = ValueError \<or> e = LiteralError"
  by (auto simp: next_entry_def dest: get_token_error typer_error
      split: sum.splits prod.splits if_splits)

lemma parse_entries_error:
  "parse_entries lexer d = Inl e \<Longrightarrow> e = ValueError \<or> e = LiteralError"
proof (induction "length (instream lexer) + length (pushback lexer)" arbitrary: lexer d rule: less_induct)
  case less
  show ?case
  proof (cases "next_entry lexer")
    case (Inl e')
    with less.prems next_entry_error[of lexer e'] show ?thesis
      by (simp add: parse_entries_unfold[of lexer d])
  next
    case (Inr r)
    show ?thesis
    proof (cases r)
      case None
      with Inr less.prems show ?thesis
        by (simp add: parse_entries_unfold[of lexer d])
    next
      case (Some kvl)
      then obtain k v lexer' where kvl: "r = Some (k, v, lexer')"
        by (cases kvl) auto
      with Inr less.prems have "parse_entries lexer' (AList.update k v d) = Inl e"
        by (simp add: parse_entries_unfold[of lexer d])
      with less.hyps[OF next_entry_measure] Inr kvl show ?thesis
        by blast
    qed
  qed
qed

lemma parse_entries_overlay:
  "parse_entries lexer A = Inr EA \<Longrightarrow> map_of B = map_of D ++ map_of A \<Longrightarrow>
   \<exists>M. parse_entries lexer B = Inr M \<and> map_of M = map_of D ++ map_of EA"
proof (induction "length (instream lexer) + length (pushback lexer)" arbitrary: lexer A B rule: less_induct)
  case less
  show ?case
  proof (cases "next_entry lexer")
    case (Inl e')
    with less.prems show ?thesis
      by (simp add: parse_entries_unfold[of lexer A])
  next
    case (Inr r)
    show ?thesis
    proof (cases r)
      case None
      with Inr less.prems show ?thesis
        by (simp add: parse_entries_unfold[of lexer A] parse_entries_unfold[of lexer B])
    next
      case (Some kvl)
      then obtain k v lexer' where kvl: "r = Some (k, v, lexer')"
        by (cases kvl) auto
      with Inr less.prems have a: "parse_entries lexer' (AList.update k v A) = Inr EA"
        by (simp add: parse_entries_unfold[of lexer A])
      have m: "map_of (AList.update k v B) = map_of D ++ map_of (AList.update k v A)"
        using less.prems(2) by (simp add: update_conv')
      from Inr kvl have "next_entry lexer = Inr (Some (k, v, lexer'))" by simp
      from less.hyps[OF next_entry_measure[OF this] a m] Inr kvl show ?thesis
        by (simp add: parse_entries_unfold[of lexer B])
    qed
  qed
qed



lemma parse_inlist_error:
  "parse_inlist fs p dopt = Inl e \<Longrightarrow> e = OSError \<or> e = ValueError \<or> e = LiteralError"
  by (auto simp: parse_inlist_def Let_def dest: parse_entries_error
      split: option.splits sum.splits exn.splits)


lemma parse_inlist_overlay:
  assumes "parse_inlist fs p None = Inr (Some E)"
  shows "\<exists>M. parse_inlist fs p (Some D) = Inr (Some M) \<and> map_of M = map_of D ++ map_of E"
proof -
  from assms obtain body where t: "fs p = Some body"
    and e: "parse_entries (inlist_lexer body) [] = Inr E"
    by (auto simp: parse_inlist_def Let_def split: option.splits sum.splits exn.splits)
  from parse_entries_overlay[OF e, of D D] obtain M where
    "parse_entries (inlist_lexer body) D = Inr M" "map_of M = map_of D ++ map_of E"
    by auto
  with t show ?thesis
    by (simp add: parse_inlist_def)
qed


text \<open>
  Claim C2. When the defaults file loads to \<open>D\<close> and the run file on its own parses to
  the entries \<open>E\<close>, \<open>get_inlist_values\<close> returns a mapping in which every key of \<open>E\<close>
  has its value from \<open>E\<close> and every other key has what \<open>D\<close> gives it. Values are
  replaced whole.
\<close>

theorem overlay_merge:
  assumes "get_default_inlist_values fs inlist_path = Inr (Some D)"
    and "parse_inlist fs inlist_path None = Inr (Some E)"
  shows "\<exists>M. get_inlist_values fs inlist_path = Inr (Some M)
          \<and> (\<forall>k. map_of M k = (case map_of E k of Some v \<Rightarrow> Some v | None \<Rightarrow> map_of D k))"
proof -
  from parse_inlist_overlay[OF assms(2), of D] obtain M where
    m: "parse_inlist fs inlist_path (Some D) = Inr (Some M)" "map_of M = map_of D ++ map_of E"
    by auto
  from m(2) have "\<forall>k. map_of M k = (case map_of E k of Some v \<Rightarrow> Some v | None \<Rightarrow> map_of D k)"
    by (simp add: map_add_def)
  with assms(1) m(1) show ?thesis
    by (simp add: get_inlist_values_def)
qed

text \<open>Defaults \<open>{a:1, b:2}\<close> under the run file \<open>{b:3, c:4}\<close> give \<open>{a:1, b:3, c:4}\<close>.\<close>

definition overlay_files :: "string \<Rightarrow> string option" where
  "overlay_files p =
     (if p = ''/run/defaults/star.defaults'' then Some (''a = 1'' @ [CHR 0x0A] @ ''b = 2'' @ [CHR 0x0A])
      else if p = ''/run/now/star.in'' then Some (''b = 3'' @ [CHR 0x0A] @ ''c = 4'' @ [CHR 0x0A])
      else None)"

theorem overlay_merge_witness:
  "get_default_inlist_values overlay_files ''/run/now/star.in'' = Inr (Some [(''a'', PInt 1), (''b'', PInt 2)])
   \<and> parse_inlist overlay_files ''/run/now/star.in'' None = Inr (Some [(''b'', PInt 3), (''c'', PInt 4)])
   \<and> (\<exists>M. get_inlist_values overlay_files ''/run/now/star.in'' = Inr (Some M)
          \<and> map_of M ''a'' = Some (PInt 1) \<and> map_of M ''b'' = Some (PInt 3)
          \<and> map_of M ''c'' = Some (PInt 4) \<and> map_of M ''d'' = None)"
proof -
  have d: "get_default_inlist_values overlay_files ''/run/now/star.in'' = Inr (Some [(''a'', PInt 1), (''b'', PInt 2)])"
    by code_simp
  have e: "parse_inlist overlay_files ''/run/now/star.in'' None = Inr (Some [(''b'', PInt 3), (''c'', PInt 4)])"
    by code_simp
  from overlay_merge[OF d e] obtain M where
    m: "get_inlist_values overlay_files ''/run/now/star.in'' = Inr (Some M)"
    and k: "\<And>k. map_of M k = (case map_of [(''b'', PInt 3), (''c'', PInt 4)] k of
                                 Some v \<Rightarrow> Some v
                               | None \<Rightarrow> map_of [(''a'', PInt 1), (''b'', PInt 2)] k)"
    by blast
  have "map_of M ''a'' = Some (PInt 1)" "map_of M ''b'' = Some (PInt 3)"
    "map_of M ''c'' = Some (PInt 4)" "map_of M ''d'' = None"
    unfolding k by simp_all
  with d e m show ?thesis
    by blast
qed





lemma match_defaults_None:
  "match_defaults p = None \<longleftrightarrow>
     \<not> (\<exists>dir sub name ext. p = dir @ ''/'' @ sub @ ''/'' @ name @ ''.'' @ ext
           \<and> CHR 0x0A \<notin> set (dir @ sub @ name))"
proof (cases "re_match compiled_regex_defaults p 0 []")
  case None
  then have "match_defaults p = None"
    by (simp add: match_defaults_def)
  with None defaults_regex_none[of p] show ?thesis by simp
next
  case (Some m)
  from re_match_marks_length[OF Some] have "length m = 4"
    by (simp add: compiled_regex_defaults_def)
  then obtain b1 e1 b2 e2 where "m = [b1, e1, b2, e2]"
    by (auto simp: numeral_eq_Suc length_Suc_conv)
  with Some have "match_defaults p \<noteq> None"
    by (simp add: match_defaults_def)
  with Some defaults_regex_none[of p] show ?thesis by simp
qed

lemma match_defaults_groups:
  assumes "CHR ''/'' \<notin> set sub" "CHR ''/'' \<notin> set name" "CHR ''/'' \<notin> set ext"
    and "CHR ''.'' \<notin> set ext"
    and "CHR 0x0A \<notin> set dir" "CHR 0x0A \<notin> set sub" "CHR 0x0A \<notin> set name"
  shows "match_defaults (dir @ ''/'' @ sub @ ''/'' @ name @ ''.'' @ ext) = Some (dir, name)"
  using defaults_regex_groups[OF assms]
  by (simp add: match_defaults_def)

text \<open>
  Claim C6, as amended. \<open>_get_default_inlist_values\<close> raises \<open>NameError\<close> if and only
  if the text of the path is not of the shape \<open>dir/sub/name.ext\<close>, where \<open>dir\<close>, \<open>sub\<close>
  and \<open>name\<close> hold no line break (the \<open>.\<close> of the pattern takes none) and any slash or
  dot of the path may serve; no parse raises \<open>NameError\<close>. For a path whose last two
  segments are \<open>sub\<close> and \<open>name.ext\<close>, with \<open>ext\<close> the text after the last dot of the
  file name, the file that is parsed is \<open>dir/defaults/name.defaults\<close>, and its outcome
  is the outcome of the call.
\<close>

theorem defaults_resolution:
  "(get_default_inlist_values fs p = Inl NameError \<longleftrightarrow>
      \<not> (\<exists>dir sub name ext. p = dir @ ''/'' @ sub @ ''/'' @ name @ ''.'' @ ext
            \<and> CHR 0x0A \<notin> set (dir @ sub @ name)))
   \<and> (CHR ''/'' \<notin> set sub \<and> CHR ''/'' \<notin> set name \<and> CHR ''/'' \<notin> set ext \<and> CHR ''.'' \<notin> set ext
        \<and> CHR 0x0A \<notin> set (dir @ sub @ name) \<longrightarrow>
      get_default_inlist_values fs (dir @ ''/'' @ sub @ ''/'' @ name @ ''.'' @ ext)
        = parse_inlist fs (dir @ ''/defaults/'' @ name @ ''.defaults'') None)"
proof (intro conjI impI)
  show "get_default_inlist_values fs p = Inl NameError \<longleftrightarrow>
      \<not> (\<exists>dir sub name ext. p = dir @ ''/'' @ sub @ ''/'' @ name @ ''.'' @ ext
            \<and> CHR 0x0A \<notin> set (dir @ sub @ name))"
  proof (cases "match_defaults p")
    case None
    with match_defaults_None[of p] show ?thesis
      by (simp add: get_default_inlist_values_def)
  next
    case (Some g)
    obtain g1 g2 where g: "g = (g1, g2)" by (cases g) auto
    have "parse_inlist fs (g1 @ ''/defaults/'' @ g2 @ ''.defaults'') None \<noteq> Inl NameError"
      using parse_inlist_error[of fs "g1 @ ''/defaults/'' @ g2 @ ''.defaults''" None NameError]
      by auto
    with Some g match_defaults_None[of p] show ?thesis
      by (simp add: get_default_inlist_values_def)
  qed
next
  assume "CHR ''/'' \<notin> set sub \<and> CHR ''/'' \<notin> set name \<and> CHR ''/'' \<notin> set ext \<and> CHR ''.'' \<notin> set ext
        \<and> CHR 0x0A \<notin> set (dir @ sub @ name)"
  then have "match_defaults (dir @ ''/'' @ sub @ ''/'' @ name @ ''.'' @ ext) = Some (dir, name)"
    by (intro match_defaults_groups) auto
  then show "get_default_inlist_values fs (dir @ ''/'' @ sub @ ''/'' @ name @ ''.'' @ ext)
        = parse_inlist fs (dir @ ''/defaults/'' @ name @ ''.defaults'') None"
    by (simp add: get_default_inlist_values_def)
qed

text \<open>A defaults file two segments back from the run file, and a path without directory.\<close>

definition defaults_files :: "string \<Rightarrow> string option" where
  "defaults_files p =
     (if p = ''/run/defaults/star.defaults'' then Some (''a = 1'' @ [CHR 0x0A]) else None)"

theorem defaults_resolution_witness:
  "get_default_inlist_values defaults_files ''/run/now/star.in'' = Inr (Some [(''a'', PInt 1)])
   \<and> get_default_inlist_values defaults_files ''star.in'' = Inl NameError"
proof -
  have p: "parse_inlist defaults_files ''/run/defaults/star.defaults'' None = Inr (Some [(''a'', PInt 1)])"
    by code_simp
  have n: "\<not> (\<exists>dir sub name ext. ''star.in'' = dir @ ''/'' @ sub @ ''/'' @ name @ ''.'' @ ext
                \<and> CHR 0x0A \<notin> set (dir @ sub @ name))"
  proof
    assume "\<exists>dir sub name ext. ''star.in'' = dir @ ''/'' @ sub @ ''/'' @ name @ ''.'' @ ext
                \<and> CHR 0x0A \<notin> set (dir @ sub @ name)"
    then obtain dir sub name ext where e: "''star.in'' = dir @ ''/'' @ sub @ ''/'' @ name @ ''.'' @ ext"
      by blast
    have "CHR ''/'' \<in> set (dir @ ''/'' @ sub @ ''/'' @ name @ ''.'' @ ext)"
      by simp
    then have "CHR ''/'' \<in> set ''star.in''"
      unfolding e[symmetric] .
    then show False by simp
  qed
  note t = defaults_resolution[where fs = defaults_files and p = "''star.in''" and dir = "''/run''"
      and sub = "''now''" and name = "''star''" and ext = "''in''"]
  from t[THEN conjunct2] p
  have "get_default_inlist_values defaults_files ''/run/now/star.in'' = Inr (Some [(''a'', PInt 1)])"
    by simp
  moreover from t[THEN conjunct1] n
  have "get_default_inlist_values defaults_files ''star.in'' = Inl NameError"
    by simp
  ultimately show ?thesis by simp
qed

text \<open>
  Claim C6 as stated fails. The file name of \<open>/data/v1.2/run/inlist\<close> has no extension,
  and two segments back lies \<open>/data/v1.2\<close>; the call does not raise \<open>NameError\<close>, and
  the file it parses is \<open>/defaults/v1.defaults\<close>: the dot of a directory name serves as
  the dot of the pattern.
\<close>

definition dotted_files :: "string \<Rightarrow> string option" where
  "dotted_files p =
     (if p = ''/defaults/v1.defaults'' then Some (''a = 1'' @ [CHR 0x0A]) else None)"

theorem defaults_resolution_counterexample:
  "match_defaults ''/data/v1.2/run/inlist'' = Some ([], ''v1'')
   \<and> get_default_inlist_values dotted_files ''/data/v1.2/run/inlist'' = Inr (Some [(''a'', PInt 1)])"
  by code_simp


section \<open>The test fixture\<close>

text \<open>
  \<open>my_text\<close> of the test module, written to \<open>my_data0/test.in\<close> and to
  \<open>defaults/test.defaults\<close> under the base directory of the test run.
\<close>

definition my_text :: string where
  "my_text =
     [CHR 0x0A]
     @ ''        % Test inlist'' @ [CHR 0x0A]
     @ ''        % Author: John Doe'' @ [CHR 0x0A]
     @ ''        '' @ [CHR 0x0A]
     @ ''        %%%%%%%%%%%%%%%%%%%%%%%%%'' @ [CHR 0x0A]
     @ ''        % set of test arguments %'' @ [CHR 0x0A]
     @ ''        %%%%%%%%%%%%%%%%%%%%%%%%%'' @ [CHR 0x0A]
     @ ''        % bool load checks'' @ [CHR 0x0A]
     @ ''        my_bool = True'' @ [CHR 0x0A]
     @ ''        my_capital_bool = FALSE'' @ [CHR 0x0A]
     @ ''        % int load check'' @ [CHR 0x0A]
     @ ''        my_int = 8'' @ [CHR 0x0A]
     @ ''        % list load check'' @ [CHR 0x0A]
     @ ''        my_list = [2,1,1,1,2]'' @ [CHR 0x0A]
     @ ''        my_list_second = [8.0,7.0,6.0]'' @ [CHR 0x0A]
     @ ''        % string load check'' @ [CHR 0x0A]
     @ ''        my_string = '' @ [CHR 0x27] @ ''this is a string'' @ [CHR 0x27] @ [CHR 0x0A]
     @ ''        my_string_second = '' @ [CHR 0x27] @ ''/path/to/somewhere'' @ [CHR 0x27] @ [CHR 0x0A]
     @ ''        % float load check'' @ [CHR 0x0A]
     @ ''        my_float = 8.0'' @ [CHR 0x0A]
     @ ''        % generic comment load check'' @ [CHR 0x0A]
     @ ''        my_comment_load = 8%7%6'' @ [CHR 0x0A]
     @ ''        ''"

definition inlist_file :: "string \<Rightarrow> string option" where
  "inlist_file p =
     (if p = ''/tmp/pytest-0/my_data0/test.in'' then Some my_text
      else if p = ''/tmp/pytest-0/defaults/test.defaults'' then Some my_text
      else None)"

definition expected_output :: inlist_dict where
  "expected_output =
     [(''my_bool'', PBool True),
      (''my_capital_bool'', PBool False),
      (''my_int'', PInt 8),
      (''my_list'', PList [PInt 2, PInt 1, PInt 1, PInt 1, PInt 2]),
      (''my_list_second'', PList [PFloat 8, PFloat 7, PFloat 6]),
      (''my_string'', PStr ''this is a string''),
      (''my_string_second'', PStr ''/path/to/somewhere''),
      (''my_float'', PFloat 8),
      (''my_comment_load'', PInt 8)]"

text \<open>
  Claim C1. Loading the fixture through \<open>get_inlist_values\<close>, with the same text as its
  own defaults file, returns exactly the expected mapping of the test, entry by entry in
  the order of the file; \<open>8%7%6\<close> is read as the integer \<open>8\<close>.
\<close>

theorem fixture_loads:
  "get_inlist_values inlist_file ''/tmp/pytest-0/my_data0/test.in'' = Inr (Some expected_output)"
  by code_simp

section \<open>The TOML loader\<close>

text \<open>
  The tree \<open>tomllib.load\<close> returns: strings, integers, floats, Booleans, dates and times
  (kept as their text), arrays, and tables. A table is a Python \<open>dict\<close>, here the list
  of its entries in insertion order. \<open>TNone\<close> is Python's \<open>None\<close>, which the parser
  never produces.
\<close>

datatype toml =
    TStr string
  | TInt int
  | TFloat rat
  | TBool bool
  | TDatetime string
  | TArray "toml list"
  | TTable "(string \<times> toml) list"
  | TNone

text \<open>
  \<open>TomlInlistHandler._adjust_for_none\<close>. The source walks \<open>parsed_dict.items()\<close> and
  mutates in place: \<open>parsed_dict[key] = None\<close> replaces the entry being visited (the keys
  of a dictionary are unique), and the recursive call changes the nested dictionary that
  this entry holds. \<open>adjust_entry\<close> is the body of the loop: \<open>val == {}\<close>, then
  \<open>isinstance(val, abc.Mapping)\<close>, and no branch for anything else.
\<close>

fun adjust_for_none :: "(string \<times> toml) list \<Rightarrow> (string \<times> toml) list"
  and adjust_entry :: "toml \<Rightarrow> toml" where
  "adjust_for_none [] = []"
| "adjust_for_none ((key, val) # rest) = (key, adjust_entry val) # adjust_for_none rest"
| "adjust_entry (TTable entries) = (if entries = [] then TNone else TTable (adjust_for_none entries))"
| "adjust_entry val = val"

text \<open>
  \<open>_parse_toml_inlist\<close> opens the file and calls \<open>tomllib.load\<close>; both belong to the
  standard library and are the parameter \<open>tomllib_load\<close>, from a path to a tree or an
  exception.
\<close>

definition parse_toml_inlist :: "(string \<Rightarrow> exn + (string \<times> toml) list) \<Rightarrow> string \<Rightarrow> exn + (string \<times> toml) list" where
  "parse_toml_inlist tomllib_load inlist_path = tomllib_load inlist_path"

text \<open>\<open>TomlInlistHandler.get_inlist_values\<close>\<close>

definition toml_get_inlist_values :: "(string \<Rightarrow> exn + (string \<times> toml) list) \<Rightarrow> string \<Rightarrow> exn + (string \<times> toml) list" where
  "toml_get_inlist_values tomllib_load inlist_path =
     exn_bind (parse_toml_inlist tomllib_load inlist_path) (\<lambda>toml_input_data.
     Inr (adjust_for_none toml_input_data))"

text \<open>The entry reached from a value by a path of keys, through tables only: \<open>v[k1][k2]...\<close>\<close>

fun lookup :: "string list \<Rightarrow> toml \<Rightarrow> toml option" where
  "lookup [] v = Some v"
| "lookup (k # ks) (TTable es) = (case map_of es k of None \<Rightarrow> None | Some v \<Rightarrow> lookup ks v)"
| "lookup (k # ks) v = None"

subsection \<open>Properties of the TOML loader\<close>

lemma map_of_adjust: "map_of (adjust_for_none t) k = map_option adjust_entry (map_of t k)"
  by (induction t) auto

lemma map_fst_adjust: "map fst (adjust_for_none t) = map fst t"
  by (induction t) auto

lemma lookup_adjust_entry: "lookup ks (adjust_entry v) = map_option adjust_entry (lookup ks v)"
proof (induction ks arbitrary: v)
  case Nil
  then show ?case by simp
next
  case (Cons k ks)
  show ?case
  proof (cases v)
    case (TTable es)
    show ?thesis
    proof (cases "es = []")
      case True
      with TTable show ?thesis by simp
    next
      case False
      with TTable Cons show ?thesis
        by (simp add: map_of_adjust split: option.splits)
    qed
  qed simp_all
qed

lemma lookup_adjust_for_none:
  assumes "path \<noteq> []"
  shows "lookup path (TTable (adjust_for_none tree)) = map_option adjust_entry (lookup path (TTable tree))"
proof -
  from assms obtain k ks where p: "path = k # ks"
    by (cases path) auto
  show ?thesis
    by (simp add: p map_of_adjust lookup_adjust_entry split: option.splits)
qed



text \<open>
  Claim C10. A table that has entries before the normalization is not replaced by Null:
  it is the table its own normalization leaves, also when every one of its entries
  becomes Null.
\<close>

theorem nonempty_table_kept:
  assumes "tomllib_load inlist_path = Inr tree"
    and "lookup path (TTable tree) = Some (TTable (e # es))"
  shows "\<exists>result. toml_get_inlist_values tomllib_load inlist_path = Inr result
           \<and> lookup path (TTable result) = Some (TTable (adjust_for_none (e # es)))
           \<and> lookup path (TTable result) \<noteq> Some TNone
           \<and> map fst (adjust_for_none (e # es)) = map fst (e # es)"
proof -
  have r: "toml_get_inlist_values tomllib_load inlist_path = Inr (adjust_for_none tree)"
    using assms(1) by (simp add: toml_get_inlist_values_def parse_toml_inlist_def)
  have "lookup path (TTable (adjust_for_none tree)) = Some (TTable (adjust_for_none (e # es)))"
  proof (cases "path = []")
    case True
    with assms(2) show ?thesis by simp
  next
    case False
    then show ?thesis
      using assms(2) by (simp add: lookup_adjust_for_none)
  qed
  with r show ?thesis
    by (simp add: map_fst_adjust)
qed

text \<open>\<open>{a = {b = {}}}\<close> becomes \<open>{a: {b: None}}\<close>, not \<open>{a: None}\<close>.\<close>

theorem nonempty_table_kept_witness:
  "toml_get_inlist_values (\<lambda>p. Inr [(''a'', TTable [(''b'', TTable [])])]) ''x.toml''
     = Inr [(''a'', TTable [(''b'', TNone)])]
   \<and> toml_get_inlist_values (\<lambda>p. Inr [(''a'', TTable [(''b'', TTable [])])]) ''x.toml''
     \<noteq> Inr [(''a'', TNone)]"
  using nonempty_table_kept[of "\<lambda>p. Inr [(''a'', TTable [(''b'', TTable [])])]" "''x.toml''" _
      "[''a'']" "(''b'', TTable [])" "[]"]
  by (simp add: toml_get_inlist_values_def parse_toml_inlist_def)

end
